theory Spec2Isabelle
  imports Complex_Main "HOL-Library.Word" "HOL-Library.Log_Nat"
begin

unbundle bit_operations_syntax

section \<open>Values of the platform\<close>

text \<open>
  The live-chat core of the application lives in two files: the codec helpers of
  \<^verbatim>\<open>services/geminiService.ts\<close> (\<^verbatim>\<open>decode\<close>, \<^verbatim>\<open>decodeAudioData\<close>, \<^verbatim>\<open>encode\<close>,
  \<^verbatim>\<open>createPcmBlob\<close>) and the callbacks of \<^verbatim>\<open>App.tsx\<close> (\<^verbatim>\<open>setupLiveChat\<close>,
  \<^verbatim>\<open>stopLiveChat\<close>).  Both run on browser primitives; the few that the code calls are
  modelled here from their standards, everything else is translated from the source.

  A JavaScript string whose code units are all below 256 is a \<^typ>\<open>string\<close> (a code
  unit above 255 makes \<^verbatim>\<open>atob\<close> raise, as any character outside its alphabet does); a
  \<^verbatim>\<open>Uint8Array\<close> is a list of \<^typ>\<open>8 word\<close>, an \<^verbatim>\<open>Int16Array\<close> a list of
  \<^typ>\<open>16 word\<close> read through \<^const>\<open>sint\<close>.  A number held in a \<^verbatim>\<open>Float32Array\<close> is
  either finite, and then a rational, or one of the three special values.
\<close>

type_synonym byte = "8 word"
type_synonym int16 = "16 word"

datatype js_error =
    InvalidCharacterError
  | RangeError
  | NotSupportedError
  | TypeError
  | Error string

datatype js_number = Finite rat | NaN | PosInf | NegInf

section \<open>Arithmetic in doubles\<close>

text \<open>
  The times of the playback clock are JavaScript numbers: \<^verbatim>\<open>currentTime\<close>,
  \<^verbatim>\<open>nextStartTime.current\<close> and \<^verbatim>\<open>duration\<close> are doubles, and a sum or a quotient of
  doubles is the exact result rounded to the nearest double, ties to the even
  significand.  A finite double is the rational it denotes, and \<open>double_of x\<close> is the
  double nearest to \<open>x\<close>: with \<open>2 ^ e \<le> \<bar>x\<bar> < 2 ^ (e + 1)\<close>, the multiple of
  \<open>2 ^ (e - 52)\<close> nearest to \<open>x\<close>.  The exponent is not bounded here, so the function
  is that of IEEE 754 binary64 for \<open>2 ^ -1022 \<le> \<bar>x\<bar> < 2 ^ 1024\<close>; the clock of an audio
  context and the durations of buffers, in seconds, lie in that range or are zero.
\<close>

definition binade :: "rat \<Rightarrow> int" where
  "binade x =
     (case quotient_of x of
        (p, q) \<Rightarrow> let d = bitlen p - bitlen q in if 2 powi d \<le> x then d else d - 1)"

definition round_even :: "rat \<Rightarrow> int" where
  "round_even m =
     (let f = \<lfloor>m\<rfloor>; r = m - of_int f
      in if r < 1 / 2 then f
         else if 1 / 2 < r then f + 1
         else if even f then f else f + 1)"

definition round_53 :: "rat \<Rightarrow> rat" where
  "round_53 x = of_int (round_even (x / 2 powi (binade x - 52))) * 2 powi (binade x - 52)"

definition double_of :: "rat \<Rightarrow> rat" where
  "double_of x = (if x = 0 then 0 else if 0 < x then round_53 x else - round_53 (- x))"

definition is_double :: "rat \<Rightarrow> bool" where
  "is_double x \<longleftrightarrow> double_of x = x"

section \<open>Transport encoding: \<^verbatim>\<open>btoa\<close> and \<^verbatim>\<open>atob\<close>\<close>

text \<open>
  \<^verbatim>\<open>btoa\<close> is the base64 encoding of RFC 4648 with padding.  The sextet \<open>i\<close> is
  written as the \<open>i\<close>-th character of \<^verbatim>\<open>A-Z a-z 0-9 + /\<close>.
\<close>

definition b64_char :: "nat \<Rightarrow> char" where
  "b64_char i =
     (if i < 26 then char_of (65 + i)
      else if i < 52 then char_of (71 + i)
      else if i < 62 then char_of (i - 4)
      else if i = 62 then CHR ''+'' else CHR ''/'')"

definition b64_index :: "char \<Rightarrow> nat option" where
  "b64_index c =
     (let n = (of_char c :: nat) in
      if 65 \<le> n \<and> n \<le> 90 then Some (n - 65)
      else if 97 \<le> n \<and> n \<le> 122 then Some (n - 71)
      else if 48 \<le> n \<and> n \<le> 57 then Some (n + 4)
      else if n = 43 then Some 62
      else if n = 47 then Some 63
      else None)"

fun bytes_to_sextets :: "nat list \<Rightarrow> nat list" where
  "bytes_to_sextets (a # b # c # rest) =
     [a div 4, (a mod 4) * 16 + b div 16, (b mod 16) * 4 + c div 64, c mod 64]
       @ bytes_to_sextets rest"
| "bytes_to_sextets [a, b] = [a div 4, (a mod 4) * 16 + b div 16, (b mod 16) * 4]"
| "bytes_to_sextets [a] = [a div 4, (a mod 4) * 16]"
| "bytes_to_sextets [] = []"

definition b64_padding :: "nat \<Rightarrow> string" where
  "b64_padding n = replicate ((3 - n mod 3) mod 3) (CHR ''='')"

definition btoa :: "string \<Rightarrow> string" where
  "btoa s = map b64_char (bytes_to_sextets (map of_char s)) @ b64_padding (length s)"

text \<open>
  \<^verbatim>\<open>atob\<close> is the forgiving-base64 decode of the WHATWG Infra standard: ASCII
  whitespace is dropped; when the length is then a multiple of four, one or two
  trailing \<^verbatim>\<open>=\<close> are dropped; a length that leaves remainder one, or any character
  outside the alphabet, is an \<^verbatim>\<open>InvalidCharacterError\<close>; the sextets are read four at a
  time, and the two or four left-over bits of a last short group are discarded.
\<close>

definition ascii_whitespace :: "char \<Rightarrow> bool" where
  "ascii_whitespace c \<longleftrightarrow> (of_char c :: nat) \<in> {9, 10, 12, 13, 32}"

definition strip_padding :: "string \<Rightarrow> string" where
  "strip_padding d =
     (if d \<noteq> [] \<and> last d = CHR ''='' then
        (if butlast d \<noteq> [] \<and> last (butlast d) = CHR ''='' then butlast (butlast d)
         else butlast d)
      else d)"

fun sextets_to_bytes :: "nat list \<Rightarrow> nat list" where
  "sextets_to_bytes (a # b # c # d # rest) =
     [a * 4 + b div 16, (b mod 16) * 16 + c div 4, (c mod 4) * 64 + d]
       @ sextets_to_bytes rest"
| "sextets_to_bytes [a, b, c] = [a * 4 + b div 16, (b mod 16) * 16 + c div 4]"
| "sextets_to_bytes [a, b] = [a * 4 + b div 16]"
| "sextets_to_bytes [a] = []"
| "sextets_to_bytes [] = []"

definition atob :: "string \<Rightarrow> js_error + string" where
  "atob s =
     (let d = filter (\<lambda>c. \<not> ascii_whitespace c) s;
          d' = (if length d mod 4 = 0 then strip_padding d else d)
      in if length d' mod 4 = 1 then Inl InvalidCharacterError
         else case those (map b64_index d') of
                None \<Rightarrow> Inl InvalidCharacterError
              | Some sx \<Rightarrow> Inr (map char_of (sextets_to_bytes sx)))"

section \<open>The codec helpers of \<^verbatim>\<open>geminiService.ts\<close>\<close>

text \<open>
  \<^verbatim>\<open>decode\<close> turns the base64 text into bytes: \<^verbatim>\<open>atob\<close>, then the code unit of each
  character stored into a \<^verbatim>\<open>Uint8Array\<close>.
\<close>

definition decode :: "string \<Rightarrow> js_error + byte list" where
  "decode base64 =
     (case atob base64 of
        Inl e \<Rightarrow> Inl e
      | Inr binaryString \<Rightarrow> Inr (map (\<lambda>c. word_of_nat (of_char c)) binaryString))"

text \<open>
  \<^verbatim>\<open>encode\<close> builds the binary string with \<^verbatim>\<open>String.fromCharCode\<close> on each byte and
  hands it to \<^verbatim>\<open>btoa\<close>.
\<close>

definition encode :: "byte list \<Rightarrow> string" where
  "encode bytes = btoa (map (\<lambda>b. char_of (unat b)) bytes)"

text \<open>
  \<^verbatim>\<open>createPcmBlob\<close> multiplies each sample by 32768 and stores the product into an
  \<^verbatim>\<open>Int16Array\<close>.  The product is exact: a \<^verbatim>\<open>Float32Array\<close> element widens to a double
  without loss and 32768 is a power of two.  The store applies ECMAScript's
  \<^verbatim>\<open>ToInt16\<close>: NaN and the infinities become 0, a finite number is truncated towards
  zero and reduced modulo \<open>2 ^ 16\<close> into the signed range; nothing clamps.
\<close>

definition js_truncate :: "rat \<Rightarrow> int" where
  "js_truncate q = (if 0 \<le> q then \<lfloor>q\<rfloor> else \<lceil>q\<rceil>)"

fun times_32768 :: "js_number \<Rightarrow> js_number" where
  "times_32768 (Finite q) = Finite (q * 32768)"
| "times_32768 NaN = NaN"
| "times_32768 PosInf = PosInf"
| "times_32768 NegInf = NegInf"

fun to_int16 :: "js_number \<Rightarrow> int16" where
  "to_int16 (Finite q) = word_of_int (js_truncate q)"
| "to_int16 NaN = 0"
| "to_int16 PosInf = 0"
| "to_int16 NegInf = 0"

text \<open>
  \<^verbatim>\<open>new Uint8Array(int16.buffer)\<close> reads the same memory as bytes and
  \<^verbatim>\<open>new Int16Array(data.buffer)\<close> reads bytes as 16-bit integers, both in the byte order
  of the platform, which is little-endian on every platform a browser runs on.  The
  second constructor raises a \<^verbatim>\<open>RangeError\<close> on an odd number of bytes.
\<close>

definition int16_bytes :: "int16 \<Rightarrow> byte list" where
  "int16_bytes w = [ucast w, ucast (drop_bit 8 w)]"

definition uint8_view :: "int16 list \<Rightarrow> byte list" where
  "uint8_view ws = concat (map int16_bytes ws)"

fun int16_view :: "byte list \<Rightarrow> int16 list" where
  "int16_view (lo # hi # rest) = (ucast lo OR push_bit 8 (ucast hi)) # int16_view rest"
| "int16_view [b] = []"
| "int16_view [] = []"

text \<open>
  The template literal \<^verbatim>\<open>${sampleRate}\<close> prints the number as ECMAScript's
  \<^verbatim>\<open>Number::toString\<close> does.  Sample rates are modelled as natural numbers, and
  \<open>number_to_string\<close> prints the decimal digits.  That is what the code prints for
  an integer rate up to \<open>2 ^ 53\<close>, every one of which is a double.  Above it the doubles
  are sparser than the integers and the code prints the shortest digits that read back
  as the same double, filled with zeros (\<open>2 ^ 60\<close> prints as 1152921504606847000), and
  from \<open>10 ^ 21\<close> on it prints an exponent; rates with a fraction are outside the model.
\<close>

fun number_to_string :: "nat \<Rightarrow> string" where
  "number_to_string n =
     (if n < 10 then [''0123456789'' ! n]
      else number_to_string (n div 10) @ [''0123456789'' ! (n mod 10)])"

declare number_to_string.simps [simp del]

record GeminiBlob =
  data :: string
  mimeType :: string

definition createPcmBlob :: "js_number list \<Rightarrow> nat \<Rightarrow> GeminiBlob" where
  "createPcmBlob samples sampleRate =
     (let int16 = map (\<lambda>x. to_int16 (times_32768 x)) samples
      in \<lparr> data = encode (uint8_view int16),
           mimeType = ''audio/pcm;rate='' @ number_to_string sampleRate \<rparr>)"

text \<open>
  An \<^verbatim>\<open>AudioContext\<close> is known here by what the code asks of it.
  \<^verbatim>\<open>createBuffer(numberOfChannels, length, sampleRate)\<close> follows the Web Audio API: a
  \<^verbatim>\<open>NotSupportedError\<close> when the channel count is zero or above the limit of the
  implementation, when the length is zero, or when the implementation does not support
  the rate; otherwise a buffer of silent channels.  The limits belong to the
  implementation and are fields of the context.
\<close>

record AudioContext =
  sampleRate :: nat
  max_channels :: nat
  rate_supported :: "nat \<Rightarrow> bool"

record AudioBuffer =
  numberOfChannels :: nat
  buffer_length :: nat
  buffer_rate :: nat
  channels :: "rat list list"

text \<open>
  The \<^verbatim>\<open>duration\<close> of a buffer is the double quotient of its length and its rate.
\<close>

definition duration :: "AudioBuffer \<Rightarrow> rat" where
  "duration b = double_of (of_nat (buffer_length b) / of_nat (buffer_rate b))"

definition createBuffer :: "AudioContext \<Rightarrow> nat \<Rightarrow> nat \<Rightarrow> nat \<Rightarrow> js_error + AudioBuffer" where
  "createBuffer ctx nch len rate =
     (if nch = 0 \<or> max_channels ctx < nch \<or> len = 0 \<or> \<not> rate_supported ctx rate
      then Inl NotSupportedError
      else Inr \<lparr> numberOfChannels = nch, buffer_length = len, buffer_rate = rate,
                 channels = replicate nch (replicate len 0) \<rparr>)"

text \<open>
  \<^verbatim>\<open>decodeAudioData\<close> reads the bytes as 16-bit integers, allocates the buffer and
  writes \<^verbatim>\<open>dataInt16[i * numChannels + channel] / 32768.0\<close> at index \<open>i\<close> of each
  channel.  The quotient is exact in a double and in the \<^verbatim>\<open>Float32Array\<close> of the
  channel.  \<^verbatim>\<open>frameCount\<close> is a JavaScript quotient; when it is not an integer the
  buffer gets its integer part, and the writes at indices beyond that are dropped by
  the typed array, so the frames written are those below the integer quotient.
\<close>

definition decodeAudioData ::
  "byte list \<Rightarrow> AudioContext \<Rightarrow> nat \<Rightarrow> nat \<Rightarrow> js_error + AudioBuffer" where
  "decodeAudioData bytes ctx rate numChannels =
     (if odd (length bytes) then Inl RangeError
      else
        let dataInt16 = int16_view bytes;
            frameCount = length dataInt16 div numChannels
        in case createBuffer ctx numChannels frameCount rate of
             Inl e \<Rightarrow> Inl e
           | Inr buffer \<Rightarrow>
               Inr (buffer \<lparr> channels :=
                 map (\<lambda>channel.
                        map (\<lambda>i. of_int (sint (dataInt16 ! (i * numChannels + channel))) / 32768)
                          [0 ..< frameCount])
                   [0 ..< numChannels] \<rparr>))"

section \<open>The live-chat state of \<^verbatim>\<open>App.tsx\<close>\<close>

text \<open>
  The promise returned by \<^verbatim>\<open>ai.live.connect\<close> and the session it resolves to are one
  object of the store.  The code attaches two kinds of callback to the promise with
  \<^verbatim>\<open>then\<close>: a send of one packet and a close.  Following ECMAScript, \<^verbatim>\<open>then\<close> on a
  pending promise appends the callback to the list of reactions; settling the promise
  runs the reactions in the order they were attached; \<^verbatim>\<open>then\<close> on a fulfilled promise
  queues the callback as a job that runs before the next event is handled; on a
  rejected promise a fulfilment callback never runs.  What the session received is
  kept with it: the packets of \<^verbatim>\<open>sendRealtimeInput\<close>, oldest first, and the number of
  \<^verbatim>\<open>close\<close> calls.

  The callbacks handed to \<^verbatim>\<open>connect\<close> are closures of the \<^verbatim>\<open>setupLiveChat\<close> that
  created them.  \<^verbatim>\<open>liveChatInputTranscription\<close> and \<^verbatim>\<open>liveChatOutputTranscription\<close> are
  constants of one render of the component, so a closure holds the values they had in
  the render whose \<^verbatim>\<open>setupLiveChat\<close> was called, whatever the state setters do later.
\<close>

datatype reaction = SendRealtimeInput GeminiBlob | CloseSession

datatype settlement = Pending | Fulfilled | Rejected

record closure =
  closed_inputTranscription :: string
  closed_outputTranscription :: string

record live_session =
  settled :: settlement
  reactions :: "reaction list"
  realtime_inputs :: "GeminiBlob list"
  close_calls :: nat
  callbacks :: closure

text \<open>
  An \<^verbatim>\<open>AudioBufferSourceNode\<close> is known by its buffer, by the argument of its
  \<^verbatim>\<open>start\<close> call together with the \<^verbatim>\<open>currentTime\<close> the handler had read, and by the
  number of \<^verbatim>\<open>stop\<close> calls it received.  Nodes are named by their position in the list
  of all nodes created so far.
\<close>

record source_node =
  buffer :: AudioBuffer
  start_when :: rat
  requested_at :: rat
  stop_calls :: nat

record app =
  loading :: bool
  error :: "string option"
  liveChatInputTranscription :: string
  liveChatOutputTranscription :: string
  liveChatHistory :: "string list"
  isLiveChatActive :: bool
  liveSessionPromise :: "nat option"
  nextStartTime :: rat
  outputAudioSources :: "nat list"
  inputAudioContext :: "AudioContext option"
  outputAudioContext :: "AudioContext option"
  mediaStreamSource :: bool
  scriptProcessorNode :: bool
  sessions :: "nat \<Rightarrow> live_session"
  session_count :: nat
  sources :: "source_node list"
  getUserMedia_calls :: nat

text \<open>The part of a \<^verbatim>\<open>LiveServerMessage\<close> that \<^verbatim>\<open>onmessage\<close> reads.\<close>

record Transcription =
  transcription_text :: "string option"

record LiveServerMessage =
  outputTranscription :: "Transcription option"
  inputTranscription :: "Transcription option"
  turnComplete :: bool
  inlineData :: "string option"
  interrupted :: bool

text \<open>What the platform answers to \<^verbatim>\<open>setupLiveChat\<close>.\<close>

record platform =
  has_mediaDevices :: bool
  has_getUserMedia :: bool
  api_key :: bool
  getUserMedia_rejects :: "string option"
  platform_max_channels :: nat
  platform_rate_supported :: "nat \<Rightarrow> bool"
  not_supported_message :: string

subsection \<open>Promise reactions\<close>

definition run_reaction :: "reaction \<Rightarrow> live_session \<Rightarrow> live_session" where
  "run_reaction r ls =
     (case r of
        SendRealtimeInput pcmBlob \<Rightarrow> ls \<lparr> realtime_inputs := realtime_inputs ls @ [pcmBlob] \<rparr>
      | CloseSession \<Rightarrow> ls \<lparr> close_calls := close_calls ls + 1 \<rparr>)"

definition promise_then :: "reaction \<Rightarrow> live_session \<Rightarrow> live_session" where
  "promise_then r ls =
     (case settled ls of
        Pending \<Rightarrow> ls \<lparr> reactions := reactions ls @ [r] \<rparr>
      | Fulfilled \<Rightarrow> run_reaction r ls
      | Rejected \<Rightarrow> ls)"

definition resolve_promise :: "live_session \<Rightarrow> live_session" where
  "resolve_promise ls =
     (case settled ls of
        Pending \<Rightarrow> (fold run_reaction (reactions ls) ls) \<lparr> settled := Fulfilled, reactions := [] \<rparr>
      | Fulfilled \<Rightarrow> ls
      | Rejected \<Rightarrow> ls)"

definition session_resolves :: "nat \<Rightarrow> app \<Rightarrow> app" where
  "session_resolves p s = s \<lparr> sessions := (sessions s) (p := resolve_promise (sessions s p)) \<rparr>"

subsection \<open>\<^verbatim>\<open>onaudioprocess\<close>\<close>

text \<open>
  The handler set in \<^verbatim>\<open>onopen\<close>.  Both references are read with a non-null assertion,
  which is erased at run time: reading \<^verbatim>\<open>sampleRate\<close> of \<^verbatim>\<open>null\<close>, or \<^verbatim>\<open>then\<close> of
  \<^verbatim>\<open>null\<close>, is a \<^verbatim>\<open>TypeError\<close>.  A handler returns the state it leaves and the
  exception it raised, if any.
\<close>

definition onaudioprocess :: "js_number list \<Rightarrow> app \<Rightarrow> app \<times> js_error option" where
  "onaudioprocess inputData s =
     (case inputAudioContext s of
        None \<Rightarrow> (s, Some TypeError)
      | Some ictx \<Rightarrow>
          let pcmBlob = createPcmBlob inputData (sampleRate ictx)
          in case liveSessionPromise s of
               None \<Rightarrow> (s, Some TypeError)
             | Some p \<Rightarrow>
                 (s \<lparr> sessions :=
                       (sessions s) (p := promise_then (SendRealtimeInput pcmBlob) (sessions s p)) \<rparr>,
                  None))"

text \<open>The blocks of a capture, one \<^verbatim>\<open>onaudioprocess\<close> event each, in order.\<close>

definition capture :: "js_number list list \<Rightarrow> app \<Rightarrow> app" where
  "capture blocks s = fold (\<lambda>inputData t. fst (onaudioprocess inputData t)) blocks s"

subsection \<open>\<^verbatim>\<open>onmessage\<close>\<close>

text \<open>
  Transcription handling.  Each fragment is appended to its accumulator by a state
  updater; a \<^verbatim>\<open>text\<close> that is absent is appended as JavaScript prints it.  On
  \<^verbatim>\<open>turnComplete\<close> the updater of the history appends the two constants of the closure,
  and both accumulators are set to the empty string.
\<close>

definition append_fragment :: "string \<Rightarrow> Transcription \<Rightarrow> string" where
  "append_fragment prev t =
     prev @ (case transcription_text t of Some txt \<Rightarrow> txt | None \<Rightarrow> ''undefined'')"

definition transcription_handling :: "closure \<Rightarrow> LiveServerMessage \<Rightarrow> app \<Rightarrow> app" where
  "transcription_handling c message s =
     (let s1 = (case outputTranscription message of
                  Some t \<Rightarrow> s \<lparr> liveChatOutputTranscription :=
                                  append_fragment (liveChatOutputTranscription s) t \<rparr>
                | None \<Rightarrow> s);
          s2 = (case inputTranscription message of
                  Some t \<Rightarrow> s1 \<lparr> liveChatInputTranscription :=
                                   append_fragment (liveChatInputTranscription s1) t \<rparr>
                | None \<Rightarrow> s1)
      in if turnComplete message
         then s2 \<lparr> liveChatHistory :=
                     liveChatHistory s2 @ [closed_inputTranscription c, closed_outputTranscription c],
                   liveChatInputTranscription := [],
                   liveChatOutputTranscription := [] \<rparr>
         else s2)"

text \<open>
  Audio output handling.  The guard is a truthiness test: an empty string and a null
  context both skip the block.  \<open>now\<close> is the \<^verbatim>\<open>currentTime\<close> the handler reads from the
  output context.  \<^verbatim>\<open>decode\<close> and \<^verbatim>\<open>decodeAudioData\<close> may raise after
  \<^verbatim>\<open>nextStartTime\<close> has been moved up; the handler then ends there.

  The handler is one step.  Its only suspension is the \<^verbatim>\<open>await\<close> of
  \<^verbatim>\<open>decodeAudioData\<close>, whose promise is settled when it is returned; the handler resumes
  in the microtasks of the same event, before the page handles another message, an
  \<^verbatim>\<open>ended\<close> event or a close.

  Times are doubles: \<^verbatim>\<open>Math.max\<close> of two doubles is one of them, and the sum
  \<^verbatim>\<open>nextStartTime.current + audioBuffer.duration\<close> is rounded by \<^const>\<open>double_of\<close>.
\<close>

definition set_add :: "nat \<Rightarrow> nat list \<Rightarrow> nat list" where
  "set_add x xs = (if x \<in> set xs then xs else xs @ [x])"

definition audio_output_handling ::
  "rat \<Rightarrow> LiveServerMessage \<Rightarrow> app \<Rightarrow> app \<times> js_error option" where
  "audio_output_handling now message s =
     (case inlineData message of
        None \<Rightarrow> (s, None)
      | Some base64EncodedAudioString \<Rightarrow>
          if base64EncodedAudioString = [] then (s, None)
          else case outputAudioContext s of
            None \<Rightarrow> (s, None)
          | Some ctx \<Rightarrow>
              let s1 = s \<lparr> nextStartTime := max (nextStartTime s) now \<rparr>
              in case decode base64EncodedAudioString of
                   Inl e \<Rightarrow> (s1, Some e)
                 | Inr bytes \<Rightarrow>
                     (case decodeAudioData bytes ctx 24000 1 of
                        Inl e \<Rightarrow> (s1, Some e)
                      | Inr audioBuffer \<Rightarrow>
                          let source = length (sources s1);
                              node = \<lparr> buffer = audioBuffer,
                                       start_when = nextStartTime s1,
                                       requested_at = now,
                                       stop_calls = 0 \<rparr>
                          in (s1 \<lparr> sources := sources s1 @ [node],
                                   nextStartTime :=
                                     double_of (nextStartTime s1 + duration audioBuffer),
                                   outputAudioSources := set_add source (outputAudioSources s1) \<rparr>,
                              None)))"

text \<open>The listener of \<^verbatim>\<open>ended\<close> that the handler attaches to each source.\<close>

definition onended :: "nat \<Rightarrow> app \<Rightarrow> app" where
  "onended source s = s \<lparr> outputAudioSources := removeAll source (outputAudioSources s) \<rparr>"

text \<open>
  Interruption handling.  The loop walks the set in insertion order; deleting the
  entry just visited does not disturb the iteration of a JavaScript \<^verbatim>\<open>Set\<close>.
\<close>

definition stop_source :: "nat \<Rightarrow> source_node list \<Rightarrow> source_node list" where
  "stop_source source ns =
     (if source < length ns
      then ns [source := (ns ! source) \<lparr> stop_calls := stop_calls (ns ! source) + 1 \<rparr>]
      else ns)"

fun stop_and_delete :: "nat list \<Rightarrow> app \<Rightarrow> app" where
  "stop_and_delete [] s = s"
| "stop_and_delete (source # rest) s =
     stop_and_delete rest
       (s \<lparr> sources := stop_source source (sources s),
            outputAudioSources := removeAll source (outputAudioSources s) \<rparr>)"

definition interruption_handling :: "LiveServerMessage \<Rightarrow> app \<Rightarrow> app" where
  "interruption_handling message s =
     (if interrupted message
      then (stop_and_delete (outputAudioSources s) s) \<lparr> nextStartTime := 0 \<rparr>
      else s)"

definition onmessage ::
  "closure \<Rightarrow> rat \<Rightarrow> LiveServerMessage \<Rightarrow> app \<Rightarrow> app \<times> js_error option" where
  "onmessage c now message s =
     (case audio_output_handling now message (transcription_handling c message s) of
        (s1, Some e) \<Rightarrow> (s1, Some e)
      | (s1, None) \<Rightarrow> (interruption_handling message s1, None))"

text \<open>
  A run of message events of one session, each with the clock reading of its handler.
  An exception ends one handler, not the session.
\<close>

definition receive :: "closure \<Rightarrow> (rat \<times> LiveServerMessage) list \<Rightarrow> app \<Rightarrow> app" where
  "receive c events s = fold (\<lambda>(now, message) t. fst (onmessage c now message t)) events s"

subsection \<open>The other callbacks\<close>

definition onopen :: "app \<Rightarrow> app \<times> js_error option" where
  "onopen s =
     (let s1 = s \<lparr> isLiveChatActive := True, loading := False \<rparr>
      in case inputAudioContext s1 of
           None \<Rightarrow> (s1, Some TypeError)
         | Some ictx \<Rightarrow> (s1 \<lparr> mediaStreamSource := True, scriptProcessorNode := True \<rparr>, None))"

definition onerror :: "string \<Rightarrow> app \<Rightarrow> app" where
  "onerror msg s =
     s \<lparr> error := Some (''Live session error: '' @ msg),
         isLiveChatActive := False,
         loading := False \<rparr>"


subsection \<open>\<^verbatim>\<open>setupLiveChat\<close> and \<^verbatim>\<open>stopLiveChat\<close>\<close>

text \<open>
  The body of the \<^verbatim>\<open>try\<close> block.  \<^verbatim>\<open>getGeminiClient\<close> throws without an API key;
  \<^verbatim>\<open>getUserMedia\<close> may reject; the \<^verbatim>\<open>AudioContext\<close> constructor raises a
  \<^verbatim>\<open>NotSupportedError\<close> on a rate the platform does not support; \<^verbatim>\<open>connect\<close> returns a
  pending promise, whose callbacks close over \<open>c\<close>.  On the left is the state at the
  throw with the message of the exception.
\<close>

definition new_context :: "platform \<Rightarrow> nat \<Rightarrow> AudioContext" where
  "new_context p rate =
     \<lparr> sampleRate = rate,
       max_channels = platform_max_channels p,
       rate_supported = platform_rate_supported p \<rparr>"

definition live_connect :: "closure \<Rightarrow> live_session" where
  "live_connect c =
     \<lparr> settled = Pending, reactions = [], realtime_inputs = [], close_calls = 0,
       callbacks = c \<rparr>"

definition try_setup :: "platform \<Rightarrow> closure \<Rightarrow> app \<Rightarrow> (app \<times> string) + app" where
  "try_setup p c s =
     (if \<not> api_key p then Inl (s, ''Gemini API key is not configured.'')
      else
        let s1 = s \<lparr> getUserMedia_calls := getUserMedia_calls s + 1 \<rparr>
        in case getUserMedia_rejects p of
             Some msg \<Rightarrow> Inl (s1, msg)
           | None \<Rightarrow>
               if \<not> platform_rate_supported p 16000 then Inl (s1, not_supported_message p)
               else
                 let s2 = s1 \<lparr> inputAudioContext := Some (new_context p 16000) \<rparr>
                 in if \<not> platform_rate_supported p 24000
                    then Inl (s2, not_supported_message p)
                    else
                      let s3 = s2 \<lparr> outputAudioContext := Some (new_context p 24000) \<rparr>
                      in Inr (s3 \<lparr> sessions := (sessions s3) (session_count s3 := live_connect c),
                                    session_count := session_count s3 + 1,
                                    liveSessionPromise := Some (session_count s3) \<rparr>))"

definition setupLiveChat :: "platform \<Rightarrow> app \<Rightarrow> app" where
  "setupLiveChat p s =
     (let c = \<lparr> closed_inputTranscription = liveChatInputTranscription s,
                closed_outputTranscription = liveChatOutputTranscription s \<rparr>;
          s0 = s \<lparr> loading := True,
                   error := None,
                   liveChatInputTranscription := [],
                   liveChatOutputTranscription := [],
                   liveChatHistory := [],
                   nextStartTime := 0 \<rparr>
      in if \<not> has_mediaDevices p \<or> \<not> has_getUserMedia p
         then s0 \<lparr> error := Some ''Microphone access is not supported in this browser.'',
                   loading := False \<rparr>
         else case try_setup p c s0 of
                Inr s1 \<Rightarrow> s1
              | Inl (s1, msg) \<Rightarrow>
                  s1 \<lparr> error := Some (''Failed to access microphone or set up live chat: '' @ msg),
                       loading := False,
                       isLiveChatActive := False \<rparr>)"

definition stopLiveChat :: "app \<Rightarrow> app" where
  "stopLiveChat s =
     (let s1 = (case liveSessionPromise s of
                  Some p \<Rightarrow>
                    s \<lparr> sessions := (sessions s) (p := promise_then CloseSession (sessions s p)),
                        liveSessionPromise := None \<rparr>
                | None \<Rightarrow> s)
      in s1 \<lparr> isLiveChatActive := False, loading := False \<rparr>)"

subsection \<open>Initial state\<close>

text \<open>
  The initial values of the \<^verbatim>\<open>useState\<close>, \<^verbatim>\<open>useReducer\<close> and \<^verbatim>\<open>useRef\<close> hooks: no
  session, no audio node, empty transcripts.
\<close>

definition initial_app :: app where
  "initial_app =
     \<lparr> loading = False,
       error = None,
       liveChatInputTranscription = [],
       liveChatOutputTranscription = [],
       liveChatHistory = [],
       isLiveChatActive = False,
       liveSessionPromise = None,
       nextStartTime = 0,
       outputAudioSources = [],
       inputAudioContext = None,
       outputAudioContext = None,
       mediaStreamSource = False,
       scriptProcessorNode = False,
       sessions = (\<lambda>p. live_connect \<lparr> closed_inputTranscription = [],
                                        closed_outputTranscription = [] \<rparr>),
       session_count = 0,
       sources = [],
       getUserMedia_calls = 0 \<rparr>"

text \<open>
  A browser with a microphone, an API key and the audio limits the Web Audio API
  asks every implementation to support at least; and the same browser without
  \<^verbatim>\<open>navigator.mediaDevices\<close>.
\<close>

definition browser :: platform where
  "browser =
     \<lparr> has_mediaDevices = True,
       has_getUserMedia = True,
       api_key = True,
       getUserMedia_rejects = None,
       platform_max_channels = 32,
       platform_rate_supported = (\<lambda>rate. 8000 \<le> rate \<and> rate \<le> 96000),
       not_supported_message = ''The sample rate is not supported.'' \<rparr>"

definition browser_without_microphone :: platform where
  "browser_without_microphone = browser \<lparr> has_mediaDevices := False \<rparr>"

definition no_message :: LiveServerMessage where
  "no_message =
     \<lparr> outputTranscription = None, inputTranscription = None, turnComplete = False,
       inlineData = None, interrupted = False \<rparr>"

subsection \<open>Messages and observations used below\<close>

definition input_fragment :: "string \<Rightarrow> LiveServerMessage" where
  "input_fragment txt =
     no_message \<lparr> inputTranscription := Some \<lparr> transcription_text = Some txt \<rparr> \<rparr>"

definition output_fragment :: "string \<Rightarrow> LiveServerMessage" where
  "output_fragment txt =
     no_message \<lparr> outputTranscription := Some \<lparr> transcription_text = Some txt \<rparr> \<rparr>"

definition turn_complete :: LiveServerMessage where
  "turn_complete = no_message \<lparr> turnComplete := True \<rparr>"

definition audio_chunk :: "string \<Rightarrow> LiveServerMessage" where
  "audio_chunk base64 = no_message \<lparr> inlineData := Some base64 \<rparr>"

definition interruption :: LiveServerMessage where
  "interruption = no_message \<lparr> interrupted := True \<rparr>"

text \<open>
  The message the server sends for a block of samples at the output rate: one inline
  chunk holding the packet data of the block.
\<close>

definition pcm_chunk :: "js_number list \<Rightarrow> LiveServerMessage" where
  "pcm_chunk samples = audio_chunk (data (createPcmBlob samples 24000))"

text \<open>
  The buffer \<^const>\<open>decodeAudioData\<close> builds from the chunk of a block: one channel, one
  frame for each sample.
\<close>

definition pcm_buffer :: "js_number list \<Rightarrow> AudioBuffer" where
  "pcm_buffer samples =
     \<lparr> numberOfChannels = 1, buffer_length = length samples, buffer_rate = 24000,
       channels = [map (\<lambda>x. of_int (sint (to_int16 (times_32768 x))) / 32768) samples] \<rparr>"

text \<open>
  A list of source nodes is chained after the time \<open>t\<close> when none starts before \<open>t\<close>
  or before the clock reading of its handler, every start time is a double, and each
  node starts no earlier than the double sum of the start time and the duration of the
  one before it.
\<close>

fun chained :: "rat \<Rightarrow> source_node list \<Rightarrow> bool" where
  "chained t [] = True"
| "chained t (n # ns) =
     (t \<le> start_when n \<and> requested_at n \<le> start_when n \<and> is_double (start_when n)
      \<and> chained (double_of (start_when n + duration (buffer n))) ns)"

text \<open>
  Reading a string of decimal digits, independently of the printing: the value of
  \<^verbatim>\<open>d1 d2 ... dn\<close> is \<open>(...(d1 * 10 + d2) * 10 ...) + dn\<close>.
\<close>

definition decimal_value :: "string \<Rightarrow> nat" where
  "decimal_value ds = foldl (\<lambda>v c. 10 * v + (of_char c - 48)) 0 ds"

text \<open>The packets of the send callbacks in a list of reactions, in order.\<close>

fun sends_of :: "reaction list \<Rightarrow> GeminiBlob list" where
  "sends_of [] = []"
| "sends_of (SendRealtimeInput pcmBlob # rs) = pcmBlob # sends_of rs"
| "sends_of (CloseSession # rs) = sends_of rs"

text \<open>
  The schedule of a list of source nodes: the start time and the duration of each, in
  the order the nodes were created.
\<close>

definition schedule :: "source_node list \<Rightarrow> (rat \<times> rat) list" where
  "schedule ns = map (\<lambda>n. (start_when n, duration (buffer n))) ns"

section \<open>Rounding to a double\<close>

lemma two_powi_pos: "0 < (2::rat) powi k"
  by (simp add: zero_less_power_int)

lemma two_powi_nat: "0 \<le> k \<Longrightarrow> (2::rat) powi k = 2 ^ nat k"
  by (simp add: power_int_def)

lemma two_powi_mono: "a \<le> b \<Longrightarrow> (2::rat) powi a \<le> 2 powi b"
  by (rule power_int_increasing) simp_all

lemma two_powi_strict_mono: "a < b \<Longrightarrow> (2::rat) powi a < 2 powi b"
  by (rule power_int_strict_increasing) simp_all

lemma two_powi_Suc: "(2::rat) powi (k + 1) = 2 * 2 powi k"
  by (simp add: power_int_add)

lemma bitlen_rat_bounds:
  assumes "0 < p"
  shows "(2::rat) powi (bitlen p - 1) \<le> of_int p \<and> of_int p < (2::rat) powi bitlen p"
proof -
  have b: "1 \<le> bitlen p" using assms bitlen_eq_zero_iff [of p] bitlen_nonneg [of p] by linarith
  from bitlen_bounds [OF assms]
  have "(2::int) ^ nat (bitlen p - 1) \<le> p" "p < (2::int) ^ nat (bitlen p)" by simp_all
  then have "(of_int ((2::int) ^ nat (bitlen p - 1)) :: rat) \<le> of_int p"
    "(of_int p :: rat) < of_int ((2::int) ^ nat (bitlen p))"
    by (simp_all only: of_int_le_iff of_int_less_iff)
  then show ?thesis using b by (simp add: two_powi_nat)
qed

lemma binade_bounds:
  assumes "0 < x"
  shows "2 powi binade x \<le> x \<and> x < 2 powi (binade x + 1)"
proof -
  obtain p q where pq: "quotient_of x = (p, q)" by (cases "quotient_of x")
  have q: "0 < q" using pq by (rule quotient_of_denom_pos)
  have x: "x = of_int p / of_int q" using pq by (rule quotient_of_div)
  have p: "0 < p" using assms q unfolding x by (simp add: zero_less_divide_iff)
  let ?d = "bitlen p - bitlen q"
  note P = bitlen_rat_bounds [OF p] and Q = bitlen_rat_bounds [OF q]
  have xq: "x * of_int q = of_int p" using q unfolding x by simp
  have qpos: "(0::rat) < of_int q" using q by simp
  have hi: "x < 2 powi (?d + 1)"
  proof (rule ccontr)
    assume "\<not> x < 2 powi (?d + 1)"
    then have "2 powi (?d + 1) \<le> x" by simp
    then have "2 powi (?d + 1) * 2 powi (bitlen q - 1) \<le> x * of_int q"
      using Q assms by (intro mult_mono) (simp_all add: two_powi_pos less_imp_le)
    moreover have "(2::rat) powi (?d + 1) * 2 powi (bitlen q - 1) = 2 powi bitlen p"
      by (simp flip: power_int_add)
    ultimately show False using P xq by simp
  qed
  have lo: "2 powi (?d - 1) < x"
  proof (rule ccontr)
    assume "\<not> 2 powi (?d - 1) < x"
    then have "x \<le> 2 powi (?d - 1)" by simp
    then have "x * of_int q \<le> 2 powi (?d - 1) * of_int q"
      using qpos by (intro mult_right_mono) simp_all
    also have "\<dots> < 2 powi (?d - 1) * 2 powi bitlen q"
      using Q by (intro mult_strict_left_mono) (simp_all add: two_powi_pos)
    also have "\<dots> = 2 powi (bitlen p - 1)"
      by (simp flip: power_int_add)
    finally show False using P xq by simp
  qed
  show ?thesis
  proof (cases "2 powi ?d \<le> x")
    case True
    then have "binade x = ?d" by (simp add: binade_def pq)
    then show ?thesis using True hi by simp
  next
    case False
    then have "binade x = ?d - 1" by (simp add: binade_def pq)
    then show ?thesis using False lo by simp
  qed
qed

lemma binade_unique:
  assumes "0 < x" "2 powi e \<le> x" "x < 2 powi (e + 1)"
  shows "binade x = e"
proof (rule ccontr)
  assume ne: "binade x \<noteq> e"
  note b = binade_bounds [OF assms(1)]
  show False
  proof (cases "binade x < e")
    case True
    then have "(2::rat) powi (binade x + 1) \<le> 2 powi e" by (intro two_powi_mono) simp
    with b assms show False by simp
  next
    case False
    with ne have "(2::rat) powi (e + 1) \<le> 2 powi binade x" by (intro two_powi_mono) simp
    with b assms show False by simp
  qed
qed

lemma binade_mono:
  assumes "0 < x" "x \<le> y"
  shows "binade x \<le> binade y"
proof (rule ccontr)
  assume "\<not> binade x \<le> binade y"
  then have "(2::rat) powi (binade y + 1) \<le> 2 powi binade x" by (intro two_powi_mono) simp
  moreover have "0 < y" using assms by simp
  ultimately show False using binade_bounds [OF assms(1)] binade_bounds [of y] assms(2) by simp
qed

lemma round_even_of_int: "round_even (of_int k) = k"
  by (simp add: round_even_def)

lemma round_even_between: "\<lfloor>m\<rfloor> \<le> round_even m \<and> round_even m \<le> \<lfloor>m\<rfloor> + 1"
  by (simp add: round_even_def Let_def)

lemma round_even_mono:
  assumes "m \<le> m'"
  shows "round_even m \<le> round_even m'"
proof (cases "\<lfloor>m\<rfloor> = \<lfloor>m'\<rfloor>")
  case True
  then have "m - of_int \<lfloor>m\<rfloor> \<le> m' - of_int \<lfloor>m'\<rfloor>" using assms by simp
  then show ?thesis using True by (auto simp: round_even_def Let_def)
next
  case False
  have "\<lfloor>m\<rfloor> \<le> \<lfloor>m'\<rfloor>" using assms by (rule floor_mono)
  with False have "\<lfloor>m\<rfloor> + 1 \<le> \<lfloor>m'\<rfloor>" by simp
  then show ?thesis using round_even_between [of m] round_even_between [of m'] by linarith
qed


lemma ulp_lo: "2 ^ 52 * (2::rat) powi (e - 52) = 2 powi e"
proof -
  have "(2::rat) powi (52 + (e - 52)) = 2 powi 52 * 2 powi (e - 52)"
    by (rule power_int_add) simp
  moreover have "52 + (e - 52) = e" by simp
  ultimately show ?thesis by simp
qed

lemma ulp_hi: "2 ^ 53 * (2::rat) powi (e - 52) = 2 powi (e + 1)"
proof -
  have "(2::rat) powi (53 + (e - 52)) = 2 powi 53 * 2 powi (e - 52)"
    by (rule power_int_add) simp
  moreover have "53 + (e - 52) = e + 1" by simp
  ultimately show ?thesis by simp
qed

lemma significand_bounds:
  assumes "0 < x"
  shows "2 ^ 52 \<le> x / 2 powi (binade x - 52) \<and> x / 2 powi (binade x - 52) < 2 ^ 53"
proof -
  let ?u = "(2::rat) powi (binade x - 52)"
  have u: "0 < ?u" by (rule two_powi_pos)
  from binade_bounds [OF assms] have "2 ^ 52 * ?u \<le> x" "x < 2 ^ 53 * ?u"
    unfolding ulp_lo ulp_hi by simp_all
  then have "2 ^ 52 \<le> x / ?u" "x / ?u < 2 ^ 53"
    using u by (simp_all only: pos_le_divide_eq pos_divide_less_eq)
  then show ?thesis ..
qed

lemma round_even_significand:
  assumes "0 < x"
  shows "2 ^ 52 \<le> round_even (x / 2 powi (binade x - 52))
       \<and> round_even (x / 2 powi (binade x - 52)) \<le> 2 ^ 53"
proof -
  let ?m = "x / 2 powi (binade x - 52)"
  from significand_bounds [OF assms]
  have lo: "of_int (2 ^ 52) \<le> ?m" and hi: "?m \<le> of_int (2 ^ 53)" by simp_all
  have "round_even (of_int (2 ^ 52)) \<le> round_even ?m" using lo by (rule round_even_mono)
  moreover have "round_even ?m \<le> round_even (of_int (2 ^ 53))" using hi by (rule round_even_mono)
  ultimately show ?thesis unfolding round_even_of_int by simp
qed

lemma round_53_bounds:
  assumes "0 < x"
  shows "2 powi binade x \<le> round_53 x \<and> round_53 x \<le> 2 powi (binade x + 1)"
proof -
  let ?u = "(2::rat) powi (binade x - 52)"
  let ?k = "round_even (x / ?u)"
  have u: "0 < ?u" by (rule two_powi_pos)
  from round_even_significand [OF assms]
  have "2 ^ 52 \<le> ?k" "?k \<le> 2 ^ 53" by simp_all
  then have "(of_int (2 ^ 52) :: rat) \<le> of_int ?k" "(of_int ?k :: rat) \<le> of_int (2 ^ 53)"
    by (simp_all only: of_int_le_iff)
  then have "(2 ^ 52 :: rat) \<le> of_int ?k" "(of_int ?k :: rat) \<le> 2 ^ 53" by simp_all
  then have "2 ^ 52 * ?u \<le> of_int ?k * ?u" "of_int ?k * ?u \<le> 2 ^ 53 * ?u"
    using u by (simp_all only: mult_le_cancel_right_pos)
  then show ?thesis unfolding ulp_lo ulp_hi by (simp add: round_53_def)
qed

lemma round_53_pos: "0 < x \<Longrightarrow> 0 < round_53 x"
proof -
  assume "0 < x"
  then have "2 powi binade x \<le> round_53 x" using round_53_bounds by blast
  moreover have "0 < (2::rat) powi binade x" by (rule two_powi_pos)
  ultimately show ?thesis by linarith
qed

lemma round_53_mono:
  assumes "0 < x" "x \<le> y"
  shows "round_53 x \<le> round_53 y"
proof (cases "binade x = binade y")
  case True
  let ?u = "(2::rat) powi (binade x - 52)"
  have u: "0 < ?u" by (rule two_powi_pos)
  have "x / ?u \<le> y / ?u" using assms(2) u by (simp add: divide_right_mono)
  then have "round_even (x / ?u) \<le> round_even (y / ?u)" by (rule round_even_mono)
  then have "(of_int (round_even (x / ?u)) :: rat) * ?u \<le> of_int (round_even (y / ?u)) * ?u"
    using u by (simp add: mult_right_mono)
  then show ?thesis by (simp add: round_53_def True)
next
  case False
  have y: "0 < y" using assms by simp
  have "binade x \<le> binade y" using assms by (rule binade_mono)
  with False have "(2::rat) powi (binade x + 1) \<le> 2 powi binade y"
    by (intro two_powi_mono) simp
  then show ?thesis using round_53_bounds [OF assms(1)] round_53_bounds [OF y] by simp
qed

lemma round_53_representable:
  assumes k: "0 < k" "k \<le> 2 ^ 53"
  shows "round_53 (of_int k * 2 powi j) = of_int k * 2 powi j"
proof -
  let ?v = "(of_int k :: rat) * 2 powi j"
  have v: "0 < ?v" using k by (simp add: two_powi_pos)
  let ?e = "binade ?v"
  let ?u = "(2::rat) powi (?e - 52)"
  have u: "0 < ?u" by (rule two_powi_pos)
  have int: "\<exists>n. ?v / ?u = of_int n"
  proof (cases "k = 2 ^ 53")
    case True
    have "?v = 2 powi (j + 53)"
      using power_int_add [of "2::rat" 53 j] by (simp add: True add.commute)
    then have "?e = j + 53"
      using v by (intro binade_unique) (simp_all add: two_powi_strict_mono)
    then have "?v / ?u = 2 powi (j + 53) / 2 powi (j + 1)"
      using \<open>?v = 2 powi (j + 53)\<close> by (simp add: add.commute)
    also have "\<dots> = 2 powi 52"
      using power_int_diff [of "2::rat" "j + 53" "j + 1"] by simp
    also have "\<dots> = of_int (2 ^ 52)" by simp
    finally show ?thesis by blast
  next
    case False
    with k have "k < 2 ^ 53" by simp
    then have "(of_int k :: rat) < of_int (2 ^ 53)" by (simp only: of_int_less_iff)
    then have "?v < 2 ^ 53 * 2 powi j" by (simp add: two_powi_pos)
    also have "\<dots> = 2 powi (j + 53)"
      using power_int_add [of "2::rat" 53 j] by (simp add: add.commute)
    finally have lt: "?v < 2 powi (j + 53)" .
    have "?e < j + 53"
    proof (rule ccontr)
      assume "\<not> ?e < j + 53"
      then have "(2::rat) powi (j + 53) \<le> 2 powi ?e" by (intro two_powi_mono) simp
      with binade_bounds [OF v] lt show False by simp
    qed
    then have n: "0 \<le> j - ?e + 52" by simp
    have "?v / ?u = of_int k * (2 powi j / ?u)" by simp
    also have "2 powi j / ?u = (2::rat) powi (j - ?e + 52)"
      using power_int_diff [of "2::rat" j "?e - 52"] by (simp add: algebra_simps)
    also have "\<dots> = 2 ^ nat (j - ?e + 52)" using n by (rule two_powi_nat)
    also have "of_int k * 2 ^ nat (j - ?e + 52) = (of_int (k * 2 ^ nat (j - ?e + 52)) :: rat)"
      by simp
    finally show ?thesis by blast
  qed
  then obtain n where n: "?v / ?u = of_int n" ..
  have "round_53 ?v = of_int (round_even (?v / ?u)) * ?u" by (simp add: round_53_def)
  also have "\<dots> = (?v / ?u) * ?u" unfolding n round_even_of_int ..
  also have "\<dots> = ?v" using u by simp
  finally show ?thesis .
qed

lemma round_53_idem: "0 < x \<Longrightarrow> round_53 (round_53 x) = round_53 x"
proof -
  assume x: "0 < x"
  let ?k = "round_even (x / 2 powi (binade x - 52))"
  from round_even_significand [OF x] have "0 < ?k" "?k \<le> 2 ^ 53" by simp_all
  then have "round_53 (of_int ?k * 2 powi (binade x - 52)) = of_int ?k * 2 powi (binade x - 52)"
    by (rule round_53_representable)
  then show ?thesis by (simp add: round_53_def)
qed

lemma double_of_0: "double_of 0 = 0"
  by (simp add: double_of_def)

lemma double_of_nonneg: "0 \<le> x \<Longrightarrow> 0 \<le> double_of x"
  using round_53_pos [of x] by (auto simp: double_of_def less_imp_le)

lemma double_of_nonpos: "x \<le> 0 \<Longrightarrow> double_of x \<le> 0"
  using round_53_pos [of "- x"] by (auto simp: double_of_def less_imp_le)

lemma double_of_mono:
  assumes "x \<le> y"
  shows "double_of x \<le> double_of y"
proof -
  consider "0 < x" | "x \<le> 0" "0 \<le> y" | "y < 0" by linarith
  then show ?thesis
  proof cases
    case 1
    then have "0 < y" using assms by simp
    then show ?thesis using 1 round_53_mono [OF 1 assms] by (simp add: double_of_def)
  next
    case 2
    then show ?thesis using double_of_nonpos [of x] double_of_nonneg [of y] by simp
  next
    case 3
    then have "0 < - y" "- y \<le> - x" "x < 0" using assms by simp_all
    then show ?thesis using round_53_mono [of "- y" "- x"] 3 by (simp add: double_of_def)
  qed
qed

lemma double_of_idem: "double_of (double_of x) = double_of x"
proof -
  consider "x = 0" | "0 < x" | "x < 0" by linarith
  then show ?thesis
  proof cases
    case 1
    then show ?thesis by (simp add: double_of_def)
  next
    case 2
    then show ?thesis using round_53_pos [OF 2] round_53_idem [OF 2] by (simp add: double_of_def)
  next
    case 3
    then have p: "0 < - x" by simp
    show ?thesis using 3 round_53_pos [OF p] round_53_idem [OF p] by (simp add: double_of_def)
  qed
qed

lemma double_of_representable:
  assumes "0 \<le> k" "k \<le> 2 ^ 53"
  shows "double_of (of_int k * 2 powi j) = of_int k * 2 powi j"
proof (cases "k = 0")
  case True
  then show ?thesis by (simp add: double_of_def)
next
  case False
  with assms have k: "0 < k" by simp
  then have "0 < (of_int k :: rat) * 2 powi j" by (simp add: two_powi_pos)
  then show ?thesis using round_53_representable [OF k assms(2)] by (simp add: double_of_def)
qed

lemma is_double_0: "is_double 0"
  by (simp add: is_double_def double_of_0)

lemma is_double_double_of: "is_double (double_of x)"
  by (simp add: is_double_def double_of_idem)

lemma is_double_max: "is_double x \<Longrightarrow> is_double y \<Longrightarrow> is_double (max x y)"
  by (simp add: max_def)

lemma double_of_sum_ge: "is_double x \<Longrightarrow> 0 \<le> d \<Longrightarrow> x \<le> double_of (x + d)"
  using double_of_mono [of x "x + d"] by (simp add: is_double_def)

section \<open>The transport encoding is binary-safe\<close>

lemma b64_index_char: "i < 64 \<Longrightarrow> b64_index (b64_char i) = Some i"
  by (auto simp: b64_index_def b64_char_def of_char_of Let_def)

lemma b64_index_pad: "b64_index (CHR ''='') = None"
  by (simp add: b64_index_def)

lemma b64_index_ws: "ascii_whitespace c \<Longrightarrow> b64_index c = None"
  by (auto simp: b64_index_def ascii_whitespace_def Let_def)

lemma b64_char_not_pad: "i < 64 \<Longrightarrow> b64_char i \<noteq> CHR ''=''"
  using b64_index_char b64_index_pad by fastforce

lemma b64_char_not_ws: "i < 64 \<Longrightarrow> \<not> ascii_whitespace (b64_char i)"
  using b64_index_char b64_index_ws by fastforce

lemma sextets_bound:
  "\<forall>b\<in>set bs. b < 256 \<Longrightarrow> \<forall>x\<in>set (bytes_to_sextets bs). x < 64"
  by (induction bs rule: bytes_to_sextets.induct) auto

lemma sextets_roundtrip:
  "\<forall>b\<in>set bs. b < 256 \<Longrightarrow> sextets_to_bytes (bytes_to_sextets bs) = bs"
  by (induction bs rule: bytes_to_sextets.induct) auto

lemma sextets_nonempty: "bs \<noteq> [] \<Longrightarrow> bytes_to_sextets bs \<noteq> []"
  by (induction bs rule: bytes_to_sextets.induct) auto

lemma length_btoa_mod4:
  "(length (bytes_to_sextets bs) + (3 - length bs mod 3) mod 3) mod 4 = 0"
  by (induction bs rule: bytes_to_sextets.induct) simp_all

lemma length_sextets_mod4: "length (bytes_to_sextets bs) mod 4 \<noteq> 1"
  by (induction bs rule: bytes_to_sextets.induct) simp_all

lemma those_index_char:
  "\<forall>x\<in>set sx. x < 64 \<Longrightarrow> those (map b64_index (map b64_char sx)) = Some sx"
  by (induction sx) (auto simp: b64_index_char)

lemma strip_padding_append:
  assumes "xs \<noteq> []" "last xs \<noteq> CHR ''=''" "k \<le> 2"
  shows "strip_padding (xs @ replicate k (CHR ''='')) = xs"
proof -
  from assms(3) consider "k = 0" | "k = 1" | "k = 2" by linarith
  then show ?thesis
  proof cases
    case 1 with assms show ?thesis by (simp add: strip_padding_def)
  next
    case 2 with assms show ?thesis by (simp add: strip_padding_def)
  next
    case 3
    have "replicate k (CHR ''='') = [CHR ''='', CHR ''='']"
      using 3 by (simp add: numeral_2_eq_2)
    with assms show ?thesis by (simp add: strip_padding_def butlast_append)
  qed
qed

lemma atob_btoa: "atob (btoa s) = Inr s"
proof (cases "s = []")
  case True
  then show ?thesis by (simp add: atob_def btoa_def b64_padding_def strip_padding_def)
next
  case False
  define bs where "bs = map (of_char :: char \<Rightarrow> nat) s"
  define sx where "sx = bytes_to_sextets bs"
  define k where "k = (3 - length s mod 3) mod 3"
  have bs: "\<forall>b\<in>set bs. b < 256" by (auto simp: bs_def)
  have sx: "\<forall>x\<in>set sx. x < 64" unfolding sx_def using bs by (rule sextets_bound)
  have ne: "sx \<noteq> []"
    unfolding sx_def using False by (intro sextets_nonempty) (simp add: bs_def)
  have "k < 3" unfolding k_def by simp
  then have k: "k \<le> 2" by simp
  let ?cs = "map b64_char sx"
  have btoa: "btoa s = ?cs @ replicate k (CHR ''='')"
    by (simp add: btoa_def bs_def sx_def k_def b64_padding_def)
  have nows: "filter (\<lambda>c. \<not> ascii_whitespace c) (btoa s) = btoa s"
    unfolding btoa using sx b64_char_not_ws
    by (auto simp: filter_id_conv ascii_whitespace_def [of "CHR ''=''"])
  have len: "length (btoa s) mod 4 = 0"
    unfolding btoa using length_btoa_mod4 [of bs] by (simp add: sx_def k_def bs_def)
  have last: "last ?cs \<noteq> CHR ''=''"
    using ne sx by (simp add: last_map b64_char_not_pad)
  have strip: "strip_padding (btoa s) = ?cs"
    unfolding btoa using ne last k by (intro strip_padding_append) simp_all
  have l1: "length ?cs mod 4 \<noteq> 1"
    using length_sextets_mod4 [of bs] by (simp add: sx_def)
  have rt: "map char_of (sextets_to_bytes sx) = s"
    unfolding sx_def sextets_roundtrip [OF bs] by (simp add: bs_def comp_def)
  show ?thesis
    unfolding atob_def Let_def nows using len strip l1 those_index_char [OF sx] rt by simp
qed

lemma byte_mod_256: "(word_of_nat (unat b mod 256) :: byte) = b"
proof -
  have "unat b < 2 ^ LENGTH(8)" by (rule unsigned_less)
  then have "unat b mod 256 = unat b" by simp
  then show ?thesis by simp
qed

lemma bytes_of_binary_string:
  "map (\<lambda>c. word_of_nat (of_char c) :: byte) (map (\<lambda>b. char_of (unat b)) bytes) = bytes"
  by (induction bytes) (simp_all add: byte_mod_256)

lemma decode_encode_bytes: "decode (encode bytes) = Inr bytes"
proof -
  have "decode (encode bytes)
      = Inr (map (\<lambda>c. word_of_nat (of_char c)) (map (\<lambda>b. char_of (unat b)) bytes))"
    unfolding decode_def encode_def atob_btoa by simp
  also have "\<dots> = Inr bytes" by (simp only: bytes_of_binary_string)
  finally show ?thesis .
qed

text \<open>
  Claim C7.  For every byte sequence \<open>b\<close>, decoding the transport text of \<open>b\<close> gives
  back \<open>b\<close>, byte for byte, and raises nothing.
\<close>

theorem decode_encode_roundtrip: "decode (encode b) = Inr b"
proof -
  let ?binary = "map (\<lambda>x. char_of (unat x)) b"
  have "atob (btoa ?binary) = Inr ?binary" by (rule atob_btoa)
  then have "decode (encode b) = Inr (map (\<lambda>c. word_of_nat (of_char c)) ?binary)"
    unfolding decode_def encode_def by simp
  then show ?thesis by (simp only: bytes_of_binary_string)
qed

theorem decode_encode_roundtrip_witness:
  "encode [0, 255, 128, 7] = ''AP+ABw=='' \<and> decode ''AP+ABw=='' = Inr [0, 255, 128, 7]"
proof -
  have e: "encode [0, 255, 128, 7] = ''AP+ABw==''" by code_simp
  show ?thesis using decode_encode_roundtrip [of "[0, 255, 128, 7]"] unfolding e by simp
qed

section \<open>The PCM codec\<close>

lemma sint_int16_of_int:
  "sint (word_of_int k :: int16) = (k + 32768) mod 65536 - 32768"
  using int_word_sint [of k, where 'a = 16] by simp

lemma sint_int16_in_range:
  "- 32768 \<le> k \<Longrightarrow> k < 32768 \<Longrightarrow> sint (word_of_int k :: int16) = k"
  by (simp add: sint_int16_of_int)

lemma js_truncate_error: "\<bar>of_int (js_truncate x) - x\<bar> < 1"
proof (cases "0 \<le> x")
  case True
  then have "js_truncate x = \<lfloor>x\<rfloor>" by (simp add: js_truncate_def)
  moreover have "of_int \<lfloor>x\<rfloor> \<le> x" "x < of_int \<lfloor>x\<rfloor> + 1" by linarith+
  ultimately show ?thesis by simp
next
  case False
  then have "js_truncate x = \<lceil>x\<rceil>" by (simp add: js_truncate_def)
  moreover have "x \<le> of_int \<lceil>x\<rceil>" "of_int \<lceil>x\<rceil> < x + 1" by linarith+
  ultimately show ?thesis by simp
qed

lemma js_truncate_range:
  assumes "- 1 \<le> q" "q < 1"
  shows "- 32768 \<le> js_truncate (q * 32768) \<and> js_truncate (q * 32768) < 32768"
proof -
  have lo: "- 32768 \<le> q * 32768" and hi: "q * 32768 < 32768" using assms by simp_all
  show ?thesis
  proof (cases "0 \<le> q * 32768")
    case True
    then have "js_truncate (q * 32768) = \<lfloor>q * 32768\<rfloor>" by (simp add: js_truncate_def)
    moreover have "0 \<le> \<lfloor>q * 32768\<rfloor>" using True by simp
    moreover have "\<lfloor>q * 32768\<rfloor> < 32768" using hi by (simp add: floor_less_iff)
    ultimately show ?thesis by simp
  next
    case False
    then have "js_truncate (q * 32768) = \<lceil>q * 32768\<rceil>" by (simp add: js_truncate_def)
    moreover have "\<lceil>q * 32768\<rceil> \<le> 0" using False by (simp add: ceiling_le_iff)
    moreover have "- 32768 \<le> \<lceil>q * 32768\<rceil>" using lo by (simp add: le_ceiling_iff)
    ultimately show ?thesis by simp
  qed
qed

lemma w16: "(ucast (ucast w :: byte) OR push_bit 8 (ucast (ucast (drop_bit 8 w) :: byte))) = (w :: int16)"
  by (rule bit_word_eqI) (auto simp: bit_simps)

lemma int16_view_uint8_view: "int16_view (uint8_view ws) = ws"
  by (induction ws) (simp_all add: uint8_view_def int16_bytes_def w16)

lemma length_uint8_view: "length (uint8_view ws) = 2 * length ws"
  by (induction ws) (simp_all add: uint8_view_def int16_bytes_def)

lemma decodeAudioData_uint8_view:
  assumes "ws \<noteq> []" "rate_supported ctx r" "1 \<le> max_channels ctx"
  shows "decodeAudioData (uint8_view ws) ctx r 1 =
         Inr \<lparr> numberOfChannels = 1, buffer_length = length ws, buffer_rate = r,
               channels = [map (\<lambda>w. of_int (sint w) / 32768) ws] \<rparr>"
proof -
  have "map (\<lambda>i. of_int (sint (ws ! i)) / (32768::rat)) [0 ..< length ws]
      = map (\<lambda>w. of_int (sint w) / 32768) ws"
    by (rule nth_equalityI) simp_all
  then show ?thesis
    using assms
    by (simp add: decodeAudioData_def length_uint8_view int16_view_uint8_view createBuffer_def)
qed

lemma createPcmBlob_data:
  "decode (data (createPcmBlob samples r)) =
     Inr (uint8_view (map (\<lambda>x. to_int16 (times_32768 x)) samples))"
  by (simp add: createPcmBlob_def decode_encode_bytes)

lemma number_to_string_digit: "n < 10 \<Longrightarrow> number_to_string n = [''0123456789'' ! n]"
  by (subst number_to_string.simps) simp

lemma number_to_string_step:
  "10 \<le> n \<Longrightarrow>
   number_to_string n = number_to_string (n div 10) @ [''0123456789'' ! (n mod 10)]"
  by (subst number_to_string.simps) simp

lemma number_to_string_16000: "number_to_string 16000 = ''16000''"
  by (simp add: number_to_string_digit number_to_string_step)

lemma to_int16_finite:
  "sint (to_int16 (times_32768 (Finite q))) = (js_truncate (q * 32768) + 32768) mod 65536 - 32768"
  by (simp add: sint_int16_of_int)

lemma to_int16_not_finite:
  "x \<in> {NaN, PosInf, NegInf} \<Longrightarrow> to_int16 (times_32768 x) = 0"
  by auto

text \<open>
  Claim C4, as the code has it.  The claim gives the bound for every sample in
  \<open>[-1, 1]\<close>; the sample \<open>1\<close> is scaled to 32768, which \<^verbatim>\<open>ToInt16\<close> wraps to -32768,
  and comes back as \<open>-1\<close>.  For a non-empty block of finite samples \<open>q\<close> with
  \<open>-1 \<le> q < 1\<close>, and a context that can allocate one channel at rate \<open>r\<close>, encoding
  with \<^const>\<open>createPcmBlob\<close>, \<^const>\<open>decode\<close> and \<^const>\<open>decodeAudioData\<close> at the same rate
  with one channel raise nothing and return one channel of the same length, each
  sample within \<open>1 / 32768\<close> of the original; an all-zero block comes back all zero.
\<close>

theorem pcm_roundtrip_within_quantization:
  assumes range: "\<forall>q\<in>set qs. - 1 \<le> q \<and> q < 1"
    and nonempty: "qs \<noteq> []"
    and ctx: "rate_supported ctx r" "1 \<le> max_channels ctx"
  shows "\<exists>bytes ch.
           decode (data (createPcmBlob (map Finite qs) r)) = Inr bytes
         \<and> decodeAudioData bytes ctx r 1 =
             Inr \<lparr> numberOfChannels = 1, buffer_length = length qs, buffer_rate = r,
                   channels = [ch] \<rparr>
         \<and> length ch = length qs
         \<and> (\<forall>i<length qs. \<bar>ch ! i - qs ! i\<bar> \<le> 1 / 32768)
         \<and> ((\<forall>q\<in>set qs. q = 0) \<longrightarrow> ch = replicate (length qs) 0)"
proof -
  define ws where "ws = map (\<lambda>q. word_of_int (js_truncate (q * 32768)) :: int16) qs"
  define ch where "ch = map (\<lambda>w. of_int (sint w) / (32768::rat)) ws"
  have ws: "map (\<lambda>x. to_int16 (times_32768 x)) (map Finite qs) = ws"
    by (simp add: ws_def comp_def)
  have bytes: "decode (data (createPcmBlob (map Finite qs) r)) = Inr (uint8_view ws)"
    unfolding createPcmBlob_data ws ..
  have "ws \<noteq> []" using nonempty by (simp add: ws_def)
  then have buf: "decodeAudioData (uint8_view ws) ctx r 1 =
      Inr \<lparr> numberOfChannels = 1, buffer_length = length qs, buffer_rate = r,
            channels = [ch] \<rparr>"
    using decodeAudioData_uint8_view [of ws ctx r] ctx by (simp add: ch_def ws_def)
  have len: "length ch = length qs" by (simp add: ch_def ws_def)
  have val: "ch ! i = of_int (js_truncate (qs ! i * 32768)) / 32768" if "i < length qs" for i
  proof -
    have "qs ! i \<in> set qs" using that by simp
    then have "- 1 \<le> qs ! i" "qs ! i < 1" using range by auto
    then have "sint (word_of_int (js_truncate (qs ! i * 32768)) :: int16)
             = js_truncate (qs ! i * 32768)"
      using js_truncate_range [of "qs ! i"] by (intro sint_int16_in_range) simp_all
    moreover have "ch ! i
        = of_int (sint (word_of_int (js_truncate (qs ! i * 32768)) :: int16)) / 32768"
      using that unfolding ch_def ws_def by (simp del: of_int_sint)
    ultimately show ?thesis by (simp only:)
  qed
  have err: "\<bar>ch ! i - qs ! i\<bar> \<le> 1 / 32768" if "i < length qs" for i
  proof -
    let ?x = "qs ! i * 32768"
    have "ch ! i - qs ! i = (of_int (js_truncate ?x) - ?x) / 32768"
      by (simp add: val [OF that] diff_divide_distrib)
    then have "\<bar>ch ! i - qs ! i\<bar> = \<bar>(of_int (js_truncate ?x) - ?x) / 32768\<bar>"
      by (simp only:)
    also have "\<dots> = \<bar>of_int (js_truncate ?x) - ?x\<bar> / 32768"
      unfolding abs_divide by simp
    also have "\<dots> \<le> 1 / 32768"
      using js_truncate_error [of ?x] by (simp add: divide_le_cancel)
    finally show ?thesis .
  qed
  have zero: "ch = replicate (length qs) 0" if "\<forall>q\<in>set qs. q = 0"
  proof (rule nth_equalityI)
    show "length ch = length (replicate (length qs) (0::rat))" by (simp add: len)
  next
    fix i assume "i < length ch"
    then have i: "i < length qs" by (simp add: len)
    then have "qs ! i = 0" using that by simp
    then show "ch ! i = replicate (length qs) 0 ! i"
      using i by (simp add: val [OF i] js_truncate_def)
  qed
  show ?thesis using bytes buf len err zero by blast
qed

theorem pcm_roundtrip_witness:
  "\<exists>bytes buf.
     decode (data (createPcmBlob (replicate 4096 (Finite 0)) 16000)) = Inr bytes
   \<and> decodeAudioData bytes (new_context browser 16000) 16000 1 = Inr buf
   \<and> channels buf = [replicate 4096 0]"
proof -
  let ?qs = "replicate 4096 (0::rat)"
  have h: "\<forall>q\<in>set ?qs. - 1 \<le> q \<and> q < 1" by simp
  have z: "\<forall>q\<in>set ?qs. q = 0" by simp
  have n: "?qs \<noteq> []" by simp
  have c: "rate_supported (new_context browser 16000) 16000"
          "1 \<le> max_channels (new_context browser 16000)"
    by (simp_all add: new_context_def browser_def)
  from pcm_roundtrip_within_quantization [OF h n c]
  obtain bytes ch where
    b: "decode (data (createPcmBlob (map Finite ?qs) 16000)) = Inr bytes"
    and d: "decodeAudioData bytes (new_context browser 16000) 16000 1 =
             Inr \<lparr> numberOfChannels = 1, buffer_length = length ?qs, buffer_rate = 16000,
                   channels = [ch] \<rparr>"
    and e: "(\<forall>q\<in>set ?qs. q = 0) \<longrightarrow> ch = replicate (length ?qs) 0"
    by blast
  from e z have "ch = replicate 4096 0" by simp
  with b d show ?thesis by (simp only: map_replicate) auto
qed

text \<open>The sample \<open>1\<close> lies in \<open>[-1, 1]\<close> and comes back as \<open>-1\<close>, off by \<open>2\<close>.\<close>

theorem pcm_roundtrip_counterexample:
  "decode (data (createPcmBlob [Finite 1] 16000)) = Inr [0, 128]
   \<and> decodeAudioData [0, 128] (new_context browser 16000) 16000 1 =
       Inr \<lparr> numberOfChannels = 1, buffer_length = 1, buffer_rate = 16000,
             channels = [[- 1]] \<rparr>
   \<and> \<not> \<bar>(- 1 :: rat) - 1\<bar> \<le> 1 / 32768"
proof -
  have bytes: "uint8_view [word_of_int 32768] = [0, 128]"
    by (simp add: uint8_view_def int16_bytes_def)
  have "decode (data (createPcmBlob [Finite 1] 16000)) = Inr (uint8_view [word_of_int 32768])"
    unfolding createPcmBlob_data by (simp add: js_truncate_def)
  then have 1: "decode (data (createPcmBlob [Finite 1] 16000)) = Inr [0, 128]"
    unfolding bytes .
  have "decodeAudioData (uint8_view [word_of_int 32768]) (new_context browser 16000) 16000 1 =
       Inr \<lparr> numberOfChannels = 1, buffer_length = 1, buffer_rate = 16000,
             channels = [[- 1]] \<rparr>"
    by (subst decodeAudioData_uint8_view) (simp_all add: new_context_def browser_def)
  then have 2: "decodeAudioData [0, 128] (new_context browser 16000) 16000 1 =
       Inr \<lparr> numberOfChannels = 1, buffer_length = 1, buffer_rate = 16000,
             channels = [[- 1]] \<rparr>"
    unfolding bytes .
  have 3: "\<not> \<bar>(- 1 :: rat) - 1\<bar> \<le> 1 / 32768" by simp
  from 1 2 3 show ?thesis by (intro conjI)
qed

text \<open>
  The decimal digits printed for a sample rate are read back by \<^const>\<open>decimal_value\<close>, which
  is defined without reference to the printing function.
\<close>

lemma digit_char: "d < 10 \<Longrightarrow> (of_char (''0123456789'' ! d) :: nat) = 48 + d"
proof -
  assume "d < 10"
  then consider "d = 0" | "d = 1" | "d = 2" | "d = 3" | "d = 4" | "d = 5" | "d = 6" | "d = 7"
    | "d = 8" | "d = 9" by (auto simp: less_Suc_eq numeral_eq_Suc)
  then show ?thesis by cases simp_all
qed

lemma decimal_value_snoc:
  "decimal_value (ds @ [c]) = 10 * decimal_value ds + (of_char c - 48)"
  by (simp add: decimal_value_def)

lemma decimal_value_digit: "d < 10 \<Longrightarrow> decimal_value [''0123456789'' ! d] = d"
  by (simp add: decimal_value_def digit_char)

lemma number_to_string_nonempty: "number_to_string n \<noteq> []"
  by (subst number_to_string.simps) simp

lemma decimal_value_number_to_string: "decimal_value (number_to_string n) = n"
proof (induction n rule: number_to_string.induct)
  case (1 n)
  show ?case
  proof (cases "n < 10")
    case True
    then show ?thesis by (simp add: number_to_string_digit decimal_value_digit)
  next
    case False
    then have "decimal_value (number_to_string (n div 10)) = n div 10" by (rule "1.IH")
    moreover have "n mod 10 < 10" by simp
    ultimately show ?thesis
      using False by (simp add: number_to_string_step decimal_value_snoc digit_char)
  qed
qed

lemma number_to_string_digits:
  "\<forall>c\<in>set (number_to_string n). 48 \<le> (of_char c :: nat) \<and> (of_char c :: nat) \<le> 57"
proof (induction n rule: number_to_string.induct)
  case (1 n)
  have d: "48 \<le> (of_char (''0123456789'' ! k) :: nat) \<and> (of_char (''0123456789'' ! k) :: nat) \<le> 57"
    if "k < 10" for k
    using digit_char [OF that] that by simp
  show ?case
  proof (cases "n < 10")
    case True
    then show ?thesis using d [of n] by (simp add: number_to_string_digit)
  next
    case False
    then have "\<forall>c\<in>set (number_to_string (n div 10)).
                48 \<le> (of_char c :: nat) \<and> (of_char c :: nat) \<le> 57" by (rule "1.IH")
    then show ?thesis using False d [of "n mod 10"] by (simp add: number_to_string_step)
  qed
qed

lemma number_to_string_leading_zero:
  "hd (number_to_string n) = CHR ''0'' \<Longrightarrow> number_to_string n = ''0''"
proof (induction n rule: number_to_string.induct)
  case (1 n)
  show ?case
  proof (cases "n < 10")
    case True
    have "(of_char (hd (number_to_string n)) :: nat) = 48 + n"
      using True by (simp add: number_to_string_digit digit_char)
    with "1.prems" have "n = 0" by simp
    then show ?thesis by (simp add: number_to_string_digit)
  next
    case False
    have "hd (number_to_string n) = hd (number_to_string (n div 10))"
      using False number_to_string_nonempty [of "n div 10"] by (simp add: number_to_string_step)
    with "1.prems" have "hd (number_to_string (n div 10)) = CHR ''0''" by simp
    with False have "number_to_string (n div 10) = ''0''" by (rule "1.IH")
    then have "decimal_value (number_to_string (n div 10)) = decimal_value ''0''" by simp
    then have "n div 10 = 0"
      unfolding decimal_value_number_to_string by (simp add: decimal_value_def)
    with False show ?thesis by simp
  qed
qed

lemma number_to_string_44100: "number_to_string 44100 = ''44100''"
  by (simp add: number_to_string_digit number_to_string_step)

text \<open>
  Claim C6.  For every sample sequence the data of the packet decode to two bytes per
  sample whose 16-bit value is, for a finite sample \<open>q\<close>, the truncation of \<open>q * 32768\<close>
  reduced modulo \<open>2 ^ 16\<close> into \<open>[-32768, 32767]\<close> (wrapped, not clamped), and \<open>0\<close> for NaN
  and the infinities.  For a sample rate that is an integer below \<open>2 ^ 53\<close> the packet is
  tagged \<^verbatim>\<open>audio/pcm;rate=\<close> followed by the decimal numeral of the rate: a non-empty
  sequence of the characters \<^verbatim>\<open>0\<close> to \<^verbatim>\<open>9\<close>, with no leading zero, whose value read in base
  ten is the rate.
\<close>

theorem createPcmBlob_wraps_and_tags_rate:
  "(r < 2 ^ 53 \<longrightarrow>
      (\<exists>digits.
          mimeType (createPcmBlob samples r) = ''audio/pcm;rate='' @ digits
        \<and> digits \<noteq> []
        \<and> (\<forall>c\<in>set digits. 48 \<le> (of_char c :: nat) \<and> (of_char c :: nat) \<le> 57)
        \<and> (hd digits = CHR ''0'' \<longrightarrow> digits = ''0'')
        \<and> decimal_value digits = r))
   \<and> (\<exists>bytes.
          decode (data (createPcmBlob samples r)) = Inr bytes
        \<and> length (int16_view bytes) = length samples
        \<and> (\<forall>i<length samples. \<forall>q. samples ! i = Finite q \<longrightarrow>
              sint (int16_view bytes ! i) = (js_truncate (q * 32768) + 32768) mod 65536 - 32768)
        \<and> (\<forall>i<length samples. samples ! i \<in> {NaN, PosInf, NegInf} \<longrightarrow>
              int16_view bytes ! i = 0))"
proof -
  let ?ws = "map (\<lambda>x. to_int16 (times_32768 x)) samples"
  have "mimeType (createPcmBlob samples r) = ''audio/pcm;rate='' @ number_to_string r"
    by (simp add: createPcmBlob_def)
  then have tag: "\<exists>digits.
          mimeType (createPcmBlob samples r) = ''audio/pcm;rate='' @ digits
        \<and> digits \<noteq> []
        \<and> (\<forall>c\<in>set digits. 48 \<le> (of_char c :: nat) \<and> (of_char c :: nat) \<le> 57)
        \<and> (hd digits = CHR ''0'' \<longrightarrow> digits = ''0'')
        \<and> decimal_value digits = r"
    using number_to_string_nonempty [of r] number_to_string_digits [of r]
      number_to_string_leading_zero [of r] decimal_value_number_to_string [of r]
    by blast
  have bytes: "decode (data (createPcmBlob samples r)) = Inr (uint8_view ?ws)"
    by (rule createPcmBlob_data)
  have view: "int16_view (uint8_view ?ws) = ?ws" by (rule int16_view_uint8_view)
  have len: "length (int16_view (uint8_view ?ws)) = length samples"
    unfolding view by simp
  have fin: "sint (int16_view (uint8_view ?ws) ! i)
               = (js_truncate (q * 32768) + 32768) mod 65536 - 32768"
    if "i < length samples" "samples ! i = Finite q" for i q
    unfolding view using that to_int16_finite [of q] by (simp del: to_int16.simps times_32768.simps)
  have nonfin: "int16_view (uint8_view ?ws) ! i = 0"
    if "i < length samples" "samples ! i \<in> {NaN, PosInf, NegInf}" for i
    unfolding view using that to_int16_not_finite [of "samples ! i"] by simp
  from bytes len fin nonfin
  have "\<exists>bytes.
          decode (data (createPcmBlob samples r)) = Inr bytes
        \<and> length (int16_view bytes) = length samples
        \<and> (\<forall>i<length samples. \<forall>q. samples ! i = Finite q \<longrightarrow>
              sint (int16_view bytes ! i) = (js_truncate (q * 32768) + 32768) mod 65536 - 32768)
        \<and> (\<forall>i<length samples. samples ! i \<in> {NaN, PosInf, NegInf} \<longrightarrow>
              int16_view bytes ! i = 0)"
    by blast
  with tag show ?thesis by blast
qed

text \<open>
  Four samples at the rate 16000: the sample \<open>1\<close> wraps to \<open>-32768\<close>, \<open>3 / 2\<close> to \<open>-16384\<close>,
  \<open>-5 / 4\<close> to \<open>24576\<close>, and NaN becomes \<open>0\<close>.
\<close>

theorem createPcmBlob_wraps_and_tags_rate_witness:
  "mimeType (createPcmBlob [Finite 1, Finite (3 / 2), Finite (- 5 / 4), NaN] 16000)
     = ''audio/pcm;rate=16000''
   \<and> mimeType (createPcmBlob [] 44100) = ''audio/pcm;rate=44100''
   \<and> decimal_value ''16000'' = 16000
   \<and> (\<exists>bytes.
          decode (data (createPcmBlob [Finite 1, Finite (3 / 2), Finite (- 5 / 4), NaN] 16000))
            = Inr bytes
        \<and> sint (int16_view bytes ! 0) = - 32768
        \<and> sint (int16_view bytes ! 1) = - 16384
        \<and> sint (int16_view bytes ! 2) = 24576
        \<and> int16_view bytes ! 3 = 0)"
proof -
  let ?samples = "[Finite 1, Finite (3 / 2), Finite (- 5 / 4), NaN]"
  have r: "(16000::nat) < 2 ^ 53" by simp
  from createPcmBlob_wraps_and_tags_rate [of 16000 ?samples] r
  obtain digits bytes where
    tag: "mimeType (createPcmBlob ?samples 16000) = ''audio/pcm;rate='' @ digits"
    and val: "decimal_value digits = 16000"
    and b: "decode (data (createPcmBlob ?samples 16000)) = Inr bytes"
    and fin: "\<And>i q. i < length ?samples \<Longrightarrow> ?samples ! i = Finite q \<Longrightarrow>
              sint (int16_view bytes ! i) = (js_truncate (q * 32768) + 32768) mod 65536 - 32768"
    and nonfin: "\<And>i. i < length ?samples \<Longrightarrow> ?samples ! i \<in> {NaN, PosInf, NegInf} \<Longrightarrow>
              int16_view bytes ! i = 0"
    by blast
  have 0: "sint (int16_view bytes ! 0) = - 32768"
    using fin [of 0 1] by (simp add: js_truncate_def)
  have 1: "sint (int16_view bytes ! 1) = - 16384"
    using fin [of 1 "3 / 2"] by (simp add: js_truncate_def)
  have 2: "sint (int16_view bytes ! 2) = 24576"
    using fin [of 2 "- 5 / 4"] by (simp add: js_truncate_def)
  have 3: "int16_view bytes ! 3 = 0"
    using nonfin [of 3] by simp
  have t1: "mimeType (createPcmBlob ?samples 16000) = ''audio/pcm;rate=16000''"
    by (simp add: createPcmBlob_def number_to_string_16000)
  have t2: "mimeType (createPcmBlob [] 44100) = ''audio/pcm;rate=44100''"
    by (simp add: createPcmBlob_def number_to_string_44100)
  have "digits = ''16000''" using tag t1 by simp
  with val have v: "decimal_value ''16000'' = 16000" by simp
  from t1 t2 v b 0 1 2 3 show ?thesis by blast
qed

section \<open>Starting and stopping the session\<close>

lemma setupLiveChat_opens_session:
  "session_count (setupLiveChat browser s) = session_count s + 1
   \<and> liveSessionPromise (setupLiveChat browser s) = Some (session_count s)
   \<and> settled (sessions (setupLiveChat browser s) (session_count s)) = Pending
   \<and> getUserMedia_calls (setupLiveChat browser s) = getUserMedia_calls s + 1"
  by (simp add: setupLiveChat_def try_setup_def browser_def live_connect_def Let_def)

text \<open>
  Claim C8.  On a platform without \<^verbatim>\<open>navigator.mediaDevices\<close> or without
  \<^verbatim>\<open>getUserMedia\<close>, \<^verbatim>\<open>setupLiveChat\<close> ends at its guard: the error slot holds the
  message of the guard and the loading flag is off; no session is opened (the store of
  sessions, their number and the session reference are as before), the microphone is not
  asked for, no audio context is created, and nothing is tried again.
\<close>

theorem setupLiveChat_without_capture:
  assumes "\<not> has_mediaDevices p \<or> \<not> has_getUserMedia p"
  shows "error (setupLiveChat p s) = Some ''Microphone access is not supported in this browser.''
       \<and> loading (setupLiveChat p s) = False
       \<and> session_count (setupLiveChat p s) = session_count s
       \<and> sessions (setupLiveChat p s) = sessions s
       \<and> liveSessionPromise (setupLiveChat p s) = liveSessionPromise s
       \<and> getUserMedia_calls (setupLiveChat p s) = getUserMedia_calls s
       \<and> inputAudioContext (setupLiveChat p s) = inputAudioContext s
       \<and> outputAudioContext (setupLiveChat p s) = outputAudioContext s
       \<and> isLiveChatActive (setupLiveChat p s) = isLiveChatActive s"
  using assms by (auto simp: setupLiveChat_def Let_def)

theorem setupLiveChat_without_capture_witness:
  "error (setupLiveChat browser_without_microphone initial_app)
     = Some ''Microphone access is not supported in this browser.''
   \<and> loading (setupLiveChat browser_without_microphone initial_app) = False
   \<and> session_count (setupLiveChat browser_without_microphone initial_app) = 0
   \<and> liveSessionPromise (setupLiveChat browser_without_microphone initial_app) = None
   \<and> getUserMedia_calls (setupLiveChat browser_without_microphone initial_app) = 0"
proof -
  have "\<not> has_mediaDevices browser_without_microphone
        \<or> \<not> has_getUserMedia browser_without_microphone"
    by (simp add: browser_without_microphone_def)
  from setupLiveChat_without_capture [OF this, of initial_app]
  show ?thesis by (simp add: initial_app_def)
qed

text \<open>
  Claim C9.  \<^verbatim>\<open>stopLiveChat\<close> has no operation that can raise.  After one call the session
  reference is null; a call in a state whose reference is null attaches no close
  callback and only sets the two flags, whatever happened to the session since; so a
  second call in succession changes nothing, and the session is closed once.
\<close>

theorem stopLiveChat_idempotent:
  "liveSessionPromise (stopLiveChat s) = None
   \<and> (liveSessionPromise t = None \<longrightarrow>
        stopLiveChat t = t \<lparr> isLiveChatActive := False, loading := False \<rparr>)
   \<and> stopLiveChat (stopLiveChat s) = stopLiveChat s"
  by (cases "liveSessionPromise s") (simp_all add: stopLiveChat_def)

theorem stopLiveChat_idempotent_witness:
  "liveSessionPromise (setupLiveChat browser initial_app) = Some 0
   \<and> close_calls (sessions (session_resolves 0 (stopLiveChat (setupLiveChat browser initial_app))) 0) = 1
   \<and> close_calls (sessions
        (stopLiveChat (session_resolves 0 (stopLiveChat (setupLiveChat browser initial_app)))) 0) = 1"
proof -
  let ?s = "setupLiveChat browser initial_app"
  let ?t = "session_resolves 0 (stopLiveChat ?s)"
  have s: "liveSessionPromise ?s = Some 0"
    using setupLiveChat_opens_session [of initial_app] by (simp add: initial_app_def)
  have pend: "settled (sessions ?s 0) = Pending" "reactions (sessions ?s 0) = []"
             "close_calls (sessions ?s 0) = 0"
    by (simp_all add: setupLiveChat_def try_setup_def browser_def live_connect_def Let_def
        initial_app_def)
  have t: "liveSessionPromise ?t = None"
    using stopLiveChat_idempotent [of ?s] by (simp add: session_resolves_def)
  have c: "close_calls (sessions ?t 0) = 1"
    using s pend
    by (simp add: session_resolves_def stopLiveChat_def promise_then_def resolve_promise_def
        run_reaction_def)
  from stopLiveChat_idempotent [of ?s ?t] t
  have "stopLiveChat ?t = ?t \<lparr> isLiveChatActive := False, loading := False \<rparr>" by simp
  then have "close_calls (sessions (stopLiveChat ?t) 0) = 1" using c by simp
  with s c show ?thesis by simp
qed

section \<open>Handling a message\<close>

lemma transcription_handling_playback:
  "outputAudioContext (transcription_handling c m s) = outputAudioContext s
   \<and> nextStartTime (transcription_handling c m s) = nextStartTime s
   \<and> sources (transcription_handling c m s) = sources s
   \<and> outputAudioSources (transcription_handling c m s) = outputAudioSources s"
  by (simp add: transcription_handling_def Let_def split: option.split)





lemma stop_and_delete_eq:
  "stop_and_delete xs s =
     s \<lparr> sources := fold stop_source xs (sources s),
         outputAudioSources := fold removeAll xs (outputAudioSources s) \<rparr>"
  by (induction xs arbitrary: s) simp_all

lemma interruption_handling_transcripts:
  "liveChatHistory (interruption_handling m s) = liveChatHistory s
   \<and> liveChatInputTranscription (interruption_handling m s) = liveChatInputTranscription s
   \<and> liveChatOutputTranscription (interruption_handling m s) = liveChatOutputTranscription s"
  by (simp add: interruption_handling_def stop_and_delete_eq)

lemma audio_output_handling_transcripts:
  "liveChatHistory (fst (audio_output_handling now m s)) = liveChatHistory s
   \<and> liveChatInputTranscription (fst (audio_output_handling now m s)) = liveChatInputTranscription s
   \<and> liveChatOutputTranscription (fst (audio_output_handling now m s)) = liveChatOutputTranscription s"
  by (simp add: audio_output_handling_def Let_def split: option.split sum.split)

lemma onmessage_transcripts:
  "liveChatHistory (fst (onmessage c now m s)) = liveChatHistory (transcription_handling c m s)
   \<and> liveChatInputTranscription (fst (onmessage c now m s))
       = liveChatInputTranscription (transcription_handling c m s)
   \<and> liveChatOutputTranscription (fst (onmessage c now m s))
       = liveChatOutputTranscription (transcription_handling c m s)"
proof (cases "audio_output_handling now m (transcription_handling c m s)")
  case (Pair s1 e)
  with audio_output_handling_transcripts [of now m "transcription_handling c m s"]
  show ?thesis
    by (cases e) (simp_all add: onmessage_def interruption_handling_transcripts)
qed

text \<open>
  Claim C3 asks that a turn-complete signal append the two accumulators to the history.
  The handler appends the constants \<^verbatim>\<open>liveChatInputTranscription\<close> and
  \<^verbatim>\<open>liveChatOutputTranscription\<close> of its closure instead, which are the values of the
  render whose \<^verbatim>\<open>setupLiveChat\<close> opened the session, and then empties both
  accumulators.  What the accumulators hold when the signal arrives does not enter the
  history.
\<close>

theorem turnComplete_appends_closure_constants:
  assumes "turnComplete m"
  shows "liveChatHistory (fst (onmessage c now m s)) =
           liveChatHistory s @ [closed_inputTranscription c, closed_outputTranscription c]
       \<and> liveChatInputTranscription (fst (onmessage c now m s)) = []
       \<and> liveChatOutputTranscription (fst (onmessage c now m s)) = []"
  unfolding onmessage_transcripts [THEN conjunct1] onmessage_transcripts [THEN conjunct2, THEN conjunct1]
    onmessage_transcripts [THEN conjunct2, THEN conjunct2]
  using assms by (simp add: transcription_handling_def Let_def split: option.split)

lemma receive_Cons:
  "receive c ((now, m) # events) s = receive c events (fst (onmessage c now m s))"
  by (simp add: receive_def)

lemma receive_Nil: "receive c [] s = s"
  by (simp add: receive_def)

lemma fragment_appends:
  "liveChatInputTranscription (fst (onmessage c now (input_fragment txt) s))
     = liveChatInputTranscription s @ txt
   \<and> liveChatOutputTranscription (fst (onmessage c now (input_fragment txt) s))
     = liveChatOutputTranscription s
   \<and> liveChatHistory (fst (onmessage c now (input_fragment txt) s)) = liveChatHistory s
   \<and> liveChatInputTranscription (fst (onmessage c now (output_fragment txt) s))
     = liveChatInputTranscription s
   \<and> liveChatOutputTranscription (fst (onmessage c now (output_fragment txt) s))
     = liveChatOutputTranscription s @ txt
   \<and> liveChatHistory (fst (onmessage c now (output_fragment txt) s)) = liveChatHistory s"
  unfolding onmessage_transcripts [THEN conjunct1] onmessage_transcripts [THEN conjunct2, THEN conjunct1]
    onmessage_transcripts [THEN conjunct2, THEN conjunct2]
  by (simp add: transcription_handling_def input_fragment_def output_fragment_def
      no_message_def append_fragment_def)

lemma setupLiveChat_browser_closure:
  "callbacks (sessions (setupLiveChat browser s) (session_count s)) =
     \<lparr> closed_inputTranscription = liveChatInputTranscription s,
       closed_outputTranscription = liveChatOutputTranscription s \<rparr>
   \<and> liveChatInputTranscription (setupLiveChat browser s) = []
   \<and> liveChatOutputTranscription (setupLiveChat browser s) = []
   \<and> liveChatHistory (setupLiveChat browser s) = []"
  by (simp add: setupLiveChat_def try_setup_def browser_def live_connect_def Let_def)

text \<open>
  In a session opened from the initial state the closure holds two empty strings.
  After the fragments \<^verbatim>\<open>hello\<close> and \<^verbatim>\<open>hi there\<close> the accumulators hold them, and the
  turn-complete signal appends two empty strings.
\<close>

theorem turnComplete_hello_hi_there:
  "liveChatInputTranscription
     (receive (callbacks (sessions (setupLiveChat browser initial_app) 0))
        [(0, input_fragment ''hello''), (0, output_fragment ''hi there'')]
        (setupLiveChat browser initial_app)) = ''hello''
   \<and> liveChatOutputTranscription
     (receive (callbacks (sessions (setupLiveChat browser initial_app) 0))
        [(0, input_fragment ''hello''), (0, output_fragment ''hi there'')]
        (setupLiveChat browser initial_app)) = ''hi there''
   \<and> liveChatHistory
     (receive (callbacks (sessions (setupLiveChat browser initial_app) 0))
        [(0, input_fragment ''hello''), (0, output_fragment ''hi there''), (0, turn_complete)]
        (setupLiveChat browser initial_app)) = [[], []]"
proof -
  let ?s = "setupLiveChat browser initial_app"
  let ?c = "callbacks (sessions ?s 0)"
  let ?s1 = "fst (onmessage ?c 0 (input_fragment ''hello'') ?s)"
  let ?s2 = "fst (onmessage ?c 0 (output_fragment ''hi there'') ?s1)"
  have c: "closed_inputTranscription ?c = []" "closed_outputTranscription ?c = []"
    using setupLiveChat_browser_closure [of initial_app] by (simp_all add: initial_app_def)
  have s: "liveChatInputTranscription ?s = []" "liveChatOutputTranscription ?s = []"
          "liveChatHistory ?s = []"
    using setupLiveChat_browser_closure [of initial_app] by simp_all
  have s1: "liveChatInputTranscription ?s1 = ''hello''" "liveChatOutputTranscription ?s1 = []"
           "liveChatHistory ?s1 = []"
    using fragment_appends [of ?c 0 "''hello''" ?s] s by simp_all
  have s2: "liveChatInputTranscription ?s2 = ''hello''"
           "liveChatOutputTranscription ?s2 = ''hi there''" "liveChatHistory ?s2 = []"
    using fragment_appends [of ?c 0 "''hi there''" ?s1] s1 by simp_all
  have tc: "turnComplete turn_complete" by (simp add: turn_complete_def no_message_def)
  from turnComplete_appends_closure_constants [OF tc, of ?c 0 ?s2]
  have "liveChatHistory (fst (onmessage ?c 0 turn_complete ?s2)) = [[], []]"
    using s2 c by simp
  with s2 show ?thesis by (simp add: receive_Cons receive_Nil)
qed

section \<open>Sending captured audio\<close>

lemma fold_run_reaction:
  "realtime_inputs (fold run_reaction rs ls) = realtime_inputs ls @ sends_of rs"
  by (induction rs arbitrary: ls rule: sends_of.induct) (simp_all add: run_reaction_def)

lemma sends_of_append: "sends_of (rs @ rs') = sends_of rs @ sends_of rs'"
  by (induction rs rule: sends_of.induct) simp_all

lemma sends_of_map_send: "sends_of (map SendRealtimeInput bs) = bs"
  by (induction bs) simp_all

lemma onaudioprocess_pending:
  assumes "liveSessionPromise s = Some p" "settled (sessions s p) = Pending"
    and "inputAudioContext s = Some ictx"
  shows "onaudioprocess inputData s =
           (s \<lparr> sessions := (sessions s)
                 (p := (sessions s p)
                    \<lparr> reactions := reactions (sessions s p)
                         @ [SendRealtimeInput (createPcmBlob inputData (sampleRate ictx))] \<rparr>) \<rparr>,
            None)"
  using assms by (simp add: onaudioprocess_def promise_then_def)

lemma capture_pending:
  assumes "liveSessionPromise s = Some p" "settled (sessions s p) = Pending"
    and "inputAudioContext s = Some ictx"
  shows "capture blocks s =
           s \<lparr> sessions := (sessions s)
                 (p := (sessions s p)
                    \<lparr> reactions := reactions (sessions s p)
                         @ map (\<lambda>inputData.
                                  SendRealtimeInput (createPcmBlob inputData (sampleRate ictx)))
                             blocks \<rparr>) \<rparr>"
  using assms
proof (induction blocks arbitrary: s)
  case Nil
  then show ?case by (simp add: capture_def)
next
  case (Cons b blocks)
  let ?s1 = "fst (onaudioprocess b s)"
  have s1: "?s1 = s \<lparr> sessions := (sessions s)
                 (p := (sessions s p)
                    \<lparr> reactions := reactions (sessions s p)
                         @ [SendRealtimeInput (createPcmBlob b (sampleRate ictx))] \<rparr>) \<rparr>"
    using onaudioprocess_pending [OF Cons.prems] by simp
  have "capture (b # blocks) s = capture blocks ?s1" by (simp add: capture_def)
  also have "\<dots> = ?s1 \<lparr> sessions := (sessions ?s1)
                 (p := (sessions ?s1 p)
                    \<lparr> reactions := reactions (sessions ?s1 p)
                         @ map (\<lambda>inputData.
                                  SendRealtimeInput (createPcmBlob inputData (sampleRate ictx)))
                             blocks \<rparr>) \<rparr>"
    using Cons.prems by (intro Cons.IH) (simp_all add: s1)
  also have "\<dots> = s \<lparr> sessions := (sessions s)
                 (p := (sessions s p)
                    \<lparr> reactions := reactions (sessions s p)
                         @ map (\<lambda>inputData.
                                  SendRealtimeInput (createPcmBlob inputData (sampleRate ictx)))
                             (b # blocks) \<rparr>) \<rparr>"
    by (simp add: s1)
  finally show ?case .
qed

text \<open>
  Claim C5.  While the session promise referenced by \<^verbatim>\<open>liveSessionPromise\<close> is pending
  and the input context exists, every captured block attaches one send callback to that
  promise and nothing reaches the session.  When the promise resolves, the session has
  received what it had, then the packets of the callbacks that were already waiting,
  then the packet of each captured block, in capture order: none dropped, none
  reordered, and no callback is left waiting.
\<close>

theorem capture_before_resolution_sent_in_order:
  assumes "liveSessionPromise s = Some p" "settled (sessions s p) = Pending"
    and "inputAudioContext s = Some ictx"
  shows "realtime_inputs (sessions (capture blocks s) p) = realtime_inputs (sessions s p)
       \<and> settled (sessions (capture blocks s) p) = Pending
       \<and> realtime_inputs (sessions (session_resolves p (capture blocks s)) p) =
           realtime_inputs (sessions s p) @ sends_of (reactions (sessions s p))
             @ map (\<lambda>inputData. createPcmBlob inputData (sampleRate ictx)) blocks
       \<and> reactions (sessions (session_resolves p (capture blocks s)) p) = []"
proof -
  let ?new = "map (\<lambda>inputData. SendRealtimeInput (createPcmBlob inputData (sampleRate ictx))) blocks"
  have new: "sends_of ?new = map (\<lambda>inputData. createPcmBlob inputData (sampleRate ictx)) blocks"
    using sends_of_map_send [of "map (\<lambda>inputData. createPcmBlob inputData (sampleRate ictx)) blocks"]
    by (simp add: comp_def)
  show ?thesis
    unfolding capture_pending [OF assms]
    using assms(2)
    by (simp add: session_resolves_def resolve_promise_def fold_run_reaction sends_of_append new)
qed

theorem capture_before_resolution_witness:
  "realtime_inputs (sessions
      (session_resolves 0
         (capture [[Finite 0], [Finite (1 / 2)], [Finite (- 1)]]
            (fst (onopen (setupLiveChat browser initial_app))))) 0)
   = [createPcmBlob [Finite 0] 16000, createPcmBlob [Finite (1 / 2)] 16000,
      createPcmBlob [Finite (- 1)] 16000]"
proof -
  let ?s = "fst (onopen (setupLiveChat browser initial_app))"
  have s: "liveSessionPromise ?s = Some 0" "settled (sessions ?s 0) = Pending"
          "inputAudioContext ?s = Some (new_context browser 16000)"
          "reactions (sessions ?s 0) = []" "realtime_inputs (sessions ?s 0) = []"
    by (simp_all add: onopen_def setupLiveChat_def try_setup_def browser_def live_connect_def
        Let_def initial_app_def)
  from capture_before_resolution_sent_in_order [OF s(1,2,3), of "[[Finite 0], [Finite (1 / 2)], [Finite (- 1)]]"]
  show ?thesis by (simp add: s new_context_def)
qed

section \<open>Playback\<close>

lemma fold_removeAll_all: "set ys \<subseteq> set xs \<Longrightarrow> fold removeAll xs ys = []"
proof (induction xs arbitrary: ys)
  case Nil
  then show ?case by simp
next
  case (Cons x xs)
  then have "set (removeAll x ys) \<subseteq> set xs" by auto
  then show ?case using Cons.IH by simp
qed

lemma length_stop_source: "length (stop_source y ns) = length ns"
  by (simp add: stop_source_def)

lemma length_fold_stop_source: "length (fold stop_source xs ns) = length ns"
  by (induction xs arbitrary: ns) (simp_all add: length_stop_source)

lemma stop_calls_stop_source:
  "x < length ns \<Longrightarrow>
   stop_calls (stop_source y ns ! x) = stop_calls (ns ! x) + (if x = y then 1 else 0)"
  by (simp add: stop_source_def)

lemma stop_calls_fold_stop_source:
  "x < length ns \<Longrightarrow>
   stop_calls (fold stop_source xs ns ! x) = stop_calls (ns ! x) + count_list xs x"
proof (induction xs arbitrary: ns)
  case Nil
  then show ?case by simp
next
  case (Cons y ys)
  have "stop_calls (fold stop_source ys (stop_source y ns) ! x)
      = stop_calls (stop_source y ns ! x) + count_list ys x"
    using Cons.prems by (intro Cons.IH) (simp add: length_stop_source)
  then show ?case using Cons.prems by (simp add: stop_calls_stop_source)
qed

lemma count_list_distinct: "distinct xs \<Longrightarrow> x \<in> set xs \<Longrightarrow> count_list xs x = 1"
  by (induction xs) (auto simp: count_list_0_iff)

lemma duration_nonneg: "0 \<le> duration b"
  by (simp add: duration_def double_of_nonneg)

lemma audio_output_handling_outcome:
  "audio_output_handling now m s = (s, None)
   \<or> (\<exists>e. audio_output_handling now m s =
          (s \<lparr> nextStartTime := max (nextStartTime s) now \<rparr>, Some e))
   \<or> (\<exists>audioBuffer. audio_output_handling now m s =
         (s \<lparr> nextStartTime := double_of (max (nextStartTime s) now + duration audioBuffer),
              outputAudioSources := set_add (length (sources s)) (outputAudioSources s),
              sources := sources s @
                [\<lparr> buffer = audioBuffer, start_when = max (nextStartTime s) now,
                   requested_at = now, stop_calls = 0 \<rparr>] \<rparr>,
          None))"
proof (cases "inlineData m")
  case None
  then show ?thesis by (simp add: audio_output_handling_def)
next
  case (Some b64)
  show ?thesis
  proof (cases "b64 = [] \<or> outputAudioContext s = None")
    case True
    then show ?thesis using Some by (auto simp: audio_output_handling_def)
  next
    case False
    then obtain ctx where ctx: "outputAudioContext s = Some ctx" and ne: "b64 \<noteq> []" by auto
    show ?thesis
    proof (cases "decode b64")
      case (Inl e)
      then show ?thesis using Some ctx ne by (simp add: audio_output_handling_def)
    next
      case (Inr bytes)
      show ?thesis
      proof (cases "decodeAudioData bytes ctx 24000 1")
        case (Inl e)
        then show ?thesis using Some ctx ne Inr by (simp add: audio_output_handling_def)
      next
        case dec: (Inr audioBuffer)
        have "audio_output_handling now m s =
           (s \<lparr> nextStartTime := double_of (max (nextStartTime s) now + duration audioBuffer),
              outputAudioSources := set_add (length (sources s)) (outputAudioSources s),
              sources := sources s @
                [\<lparr> buffer = audioBuffer, start_when = max (nextStartTime s) now,
                   requested_at = now, stop_calls = 0 \<rparr>] \<rparr>,
            None)"
          using Some ctx ne Inr dec by (simp add: audio_output_handling_def)
        then show ?thesis by blast
      qed
    qed
  qed
qed

lemma audio_output_handling_cases:
  obtains
    (skip) "audio_output_handling now m s = (s, None)"
  | (raise) e where
      "audio_output_handling now m s = (s \<lparr> nextStartTime := max (nextStartTime s) now \<rparr>, Some e)"
  | (play) audioBuffer where
      "audio_output_handling now m s =
         (s \<lparr> nextStartTime := double_of (max (nextStartTime s) now + duration audioBuffer),
              outputAudioSources := set_add (length (sources s)) (outputAudioSources s),
              sources := sources s @
                [\<lparr> buffer = audioBuffer, start_when = max (nextStartTime s) now,
                   requested_at = now, stop_calls = 0 \<rparr>] \<rparr>,
          None)"
  using audio_output_handling_outcome [of now m s] by blast

lemma set_add_fresh: "x \<notin> set xs \<Longrightarrow> set_add x xs = xs @ [x]"
  by (simp add: set_add_def)

lemma interruption_handling_eq:
  "interrupted m \<Longrightarrow>
   interruption_handling m s =
     s \<lparr> sources := fold stop_source (outputAudioSources s) (sources s),
         outputAudioSources := [],
         nextStartTime := 0 \<rparr>"
  by (simp add: interruption_handling_def stop_and_delete_eq fold_removeAll_all)

lemma chained_mono: "chained t' ns \<Longrightarrow> t \<le> t' \<Longrightarrow> chained t ns"
  by (cases ns) auto

lemma chained_node:
  "chained t ns \<Longrightarrow> n \<in> set ns \<Longrightarrow>
   t \<le> start_when n \<and> requested_at n \<le> start_when n \<and> is_double (start_when n)"
proof (induction ns arbitrary: t)
  case Nil
  then show ?case by simp
next
  case (Cons a ns)
  have a: "t \<le> start_when a" "is_double (start_when a)" using Cons.prems(1) by simp_all
  have up: "start_when a \<le> double_of (start_when a + duration (buffer a))"
    using a(2) duration_nonneg by (rule double_of_sum_ge)
  show ?case
  proof (cases "n = a")
    case True
    then show ?thesis using Cons.prems(1) by simp
  next
    case False
    then have "n \<in> set ns" using Cons.prems(2) by simp
    moreover have "chained (double_of (start_when a + duration (buffer a))) ns"
      using Cons.prems(1) by simp
    ultimately have "double_of (start_when a + duration (buffer a)) \<le> start_when n
        \<and> requested_at n \<le> start_when n \<and> is_double (start_when n)"
      by (rule Cons.IH [rotated])
    then show ?thesis using a(1) up by simp
  qed
qed

lemma chained_nth:
  "chained t ns \<Longrightarrow> Suc i < length ns \<Longrightarrow>
   double_of (start_when (ns ! i) + duration (buffer (ns ! i))) \<le> start_when (ns ! Suc i)"
proof (induction ns arbitrary: t i)
  case Nil
  then show ?case by simp
next
  case (Cons n ns)
  show ?case
  proof (cases i)
    case 0
    with Cons.prems show ?thesis by (cases ns) auto
  next
    case (Suc j)
    with Cons.prems Cons.IH [of "double_of (start_when n + duration (buffer n))" j]
    show ?thesis by simp
  qed
qed

lemma onmessage_step:
  assumes "\<not> interrupted m"
  shows "(sources (fst (onmessage c now m s)) = sources s
          \<and> (nextStartTime (fst (onmessage c now m s)) = nextStartTime s
              \<or> nextStartTime (fst (onmessage c now m s)) = max (nextStartTime s) now))
       \<or> (\<exists>node. sources (fst (onmessage c now m s)) = sources s @ [node]
                 \<and> start_when node = max (nextStartTime s) now
                 \<and> requested_at node = now
                 \<and> nextStartTime (fst (onmessage c now m s))
                     = double_of (start_when node + duration (buffer node)))"
proof -
  let ?t = "transcription_handling c m s"
  have t: "sources ?t = sources s" "nextStartTime ?t = nextStartTime s"
    using transcription_handling_playback [of c m s] by simp_all
  show ?thesis
  proof (cases now m ?t rule: audio_output_handling_cases)
    case skip
    then show ?thesis using assms by (simp add: onmessage_def interruption_handling_def t)
  next
    case (raise e)
    then show ?thesis by (simp add: onmessage_def t)
  next
    case (play audioBuffer)
    then show ?thesis using assms by (simp add: onmessage_def interruption_handling_def t)
  qed
qed

lemma receive_chained:
  assumes "\<forall>e\<in>set events. \<not> interrupted (snd e)"
    and "\<forall>e\<in>set events. is_double (fst e)"
    and "is_double (nextStartTime s)"
  shows "\<exists>new. sources (receive c events s) = sources s @ new \<and> chained (nextStartTime s) new"
  using assms
proof (induction events arbitrary: s)
  case Nil
  then show ?case by (simp add: receive_Nil)
next
  case (Cons e events)
  obtain now m where e: "e = (now, m)" by (cases e)
  let ?s1 = "fst (onmessage c now m s)"
  have m: "\<not> interrupted m" and now: "is_double now" using Cons.prems e by simp_all
  have run: "receive c (e # events) s = receive c events ?s1" by (simp add: e receive_Cons)
  have start: "is_double (max (nextStartTime s) now)"
    using Cons.prems(3) now by (rule is_double_max)
  from onmessage_step [OF m, of c now s] show ?case
  proof
    assume a: "sources ?s1 = sources s
          \<and> (nextStartTime ?s1 = nextStartTime s \<or> nextStartTime ?s1 = max (nextStartTime s) now)"
    then have d: "is_double (nextStartTime ?s1)" and le: "nextStartTime s \<le> nextStartTime ?s1"
      using Cons.prems(3) start by auto
    from Cons.IH [of ?s1] Cons.prems d
    obtain new1 where new1: "sources (receive c events ?s1) = sources ?s1 @ new1"
      and ch1: "chained (nextStartTime ?s1) new1" by auto
    show ?thesis using new1 ch1 run a le chained_mono by auto
  next
    assume "\<exists>node. sources ?s1 = sources s @ [node]
                 \<and> start_when node = max (nextStartTime s) now
                 \<and> requested_at node = now
                 \<and> nextStartTime ?s1 = double_of (start_when node + duration (buffer node))"
    then obtain node where node: "sources ?s1 = sources s @ [node]"
      "start_when node = max (nextStartTime s) now" "requested_at node = now"
      "nextStartTime ?s1 = double_of (start_when node + duration (buffer node))" by blast
    have d: "is_double (nextStartTime ?s1)" unfolding node(4) by (rule is_double_double_of)
    from Cons.IH [of ?s1] Cons.prems d
    obtain new1 where new1: "sources (receive c events ?s1) = sources ?s1 @ new1"
      and ch1: "chained (nextStartTime ?s1) new1" by auto
    have "chained (nextStartTime s) (node # new1)" using node ch1 start by simp
    moreover have "sources (receive c (e # events) s) = sources s @ (node # new1)"
      using run new1 node by simp
    ultimately show ?thesis by blast
  qed
qed

lemma encode_nonempty: "bytes \<noteq> [] \<Longrightarrow> encode bytes \<noteq> []"
  using sextets_nonempty [of "map of_char (map (\<lambda>b. char_of (unat b)) bytes)"]
  by (simp add: encode_def btoa_def)

lemma uint8_view_nonempty: "ws \<noteq> [] \<Longrightarrow> uint8_view ws \<noteq> []"
  by (cases ws) (simp_all add: uint8_view_def int16_bytes_def)

lemma pcm_chunk_fields:
  "inlineData (pcm_chunk samples) = Some (data (createPcmBlob samples 24000))
   \<and> outputTranscription (pcm_chunk samples) = None
   \<and> inputTranscription (pcm_chunk samples) = None
   \<and> \<not> turnComplete (pcm_chunk samples)
   \<and> \<not> interrupted (pcm_chunk samples)"
  by (simp add: pcm_chunk_def audio_chunk_def no_message_def)

lemma pcm_chunk_nonempty: "samples \<noteq> [] \<Longrightarrow> data (createPcmBlob samples 24000) \<noteq> []"
  by (simp add: createPcmBlob_def encode_nonempty uint8_view_nonempty)

lemma decodeAudioData_pcm:
  assumes "samples \<noteq> []" "rate_supported ctx 24000" "1 \<le> max_channels ctx"
  shows "decodeAudioData (uint8_view (map (\<lambda>x. to_int16 (times_32768 x)) samples)) ctx 24000 1
           = Inr (pcm_buffer samples)"
  using assms
  by (subst decodeAudioData_uint8_view) (simp_all add: pcm_buffer_def comp_def del: of_int_sint)

lemma duration_pcm_buffer:
  "duration (pcm_buffer samples) = double_of (of_nat (length samples) / 24000)"
  by (simp add: duration_def pcm_buffer_def)

lemma onmessage_pcm_chunk:
  assumes ctx: "outputAudioContext s = Some ctx" "rate_supported ctx 24000" "1 \<le> max_channels ctx"
    and ne: "samples \<noteq> []"
  shows "onmessage c now (pcm_chunk samples) s =
           (s \<lparr> nextStartTime :=
                  double_of (max (nextStartTime s) now + duration (pcm_buffer samples)),
                outputAudioSources := set_add (length (sources s)) (outputAudioSources s),
                sources := sources s @
                  [\<lparr> buffer = pcm_buffer samples, start_when = max (nextStartTime s) now,
                     requested_at = now, stop_calls = 0 \<rparr>] \<rparr>,
            None)"
proof -
  have t: "transcription_handling c (pcm_chunk samples) s = s"
    by (simp add: transcription_handling_def pcm_chunk_fields)
  have dec: "decodeAudioData (uint8_view (map (\<lambda>x. to_int16 (times_32768 x)) samples)) ctx 24000
               (Suc 0) = Inr (pcm_buffer samples)"
    using decodeAudioData_pcm [OF ne ctx(2,3)] by simp
  have a: "audio_output_handling now (pcm_chunk samples) s =
           (s \<lparr> nextStartTime :=
                  double_of (max (nextStartTime s) now + duration (pcm_buffer samples)),
                outputAudioSources := set_add (length (sources s)) (outputAudioSources s),
                sources := sources s @
                  [\<lparr> buffer = pcm_buffer samples, start_when = max (nextStartTime s) now,
                     requested_at = now, stop_calls = 0 \<rparr>] \<rparr>,
            None)"
    using ctx(1) pcm_chunk_nonempty [OF ne]
    by (simp add: audio_output_handling_def pcm_chunk_fields createPcmBlob_data dec Let_def)
  show ?thesis
    by (simp add: onmessage_def t a interruption_handling_def pcm_chunk_fields)
qed

lemma setupLiveChat_browser_playback:
  "outputAudioContext (setupLiveChat browser s) = Some (new_context browser 24000)
   \<and> nextStartTime (setupLiveChat browser s) = 0
   \<and> sources (setupLiveChat browser s) = sources s
   \<and> outputAudioSources (setupLiveChat browser s) = outputAudioSources s"
  by (simp add: setupLiveChat_def try_setup_def browser_def Let_def)

lemma browser_context:
  "rate_supported (new_context browser r) 24000 \<and> 1 \<le> max_channels (new_context browser r)"
  by (simp add: new_context_def browser_def)

lemma is_double_1: "is_double 1"
  unfolding is_double_def by code_simp

lemma is_double_5: "is_double 5"
  unfolding is_double_def by code_simp

lemma duration_375: "duration (pcm_buffer (replicate 375 (Finite 0))) = 1 / 64"
proof -
  have "double_of (1 / 64) = 1 / 64" by code_simp
  then show ?thesis by (simp add: duration_pcm_buffer)
qed

lemma duration_750: "duration (pcm_buffer (replicate 750 (Finite 0))) = 1 / 32"
proof -
  have "double_of (1 / 32) = 1 / 32" by code_simp
  then show ?thesis by (simp add: duration_pcm_buffer)
qed

lemma decode_single_character: "decode ''A'' = Inl InvalidCharacterError"
  by (simp add: decode_def atob_def ascii_whitespace_def)

lemma two_chunks_playing:
  "outputAudioContext
     (receive c [(1, pcm_chunk (replicate 375 (Finite 0))),
                 (1, pcm_chunk (replicate 375 (Finite 0)))]
        (setupLiveChat browser initial_app)) = Some (new_context browser 24000)
   \<and> outputAudioSources
     (receive c [(1, pcm_chunk (replicate 375 (Finite 0))),
                 (1, pcm_chunk (replicate 375 (Finite 0)))]
        (setupLiveChat browser initial_app)) = [0, 1]
   \<and> map stop_calls (sources
     (receive c [(1, pcm_chunk (replicate 375 (Finite 0))),
                 (1, pcm_chunk (replicate 375 (Finite 0)))]
        (setupLiveChat browser initial_app))) = [0, 0]"
proof -
  let ?s = "setupLiveChat browser initial_app"
  let ?A = "replicate 375 (Finite 0)"
  note ctx = browser_context [of 24000, THEN conjunct1] browser_context [of 24000, THEN conjunct2]
  have A: "?A \<noteq> []" by simp
  have s: "outputAudioContext ?s = Some (new_context browser 24000)"
          "sources ?s = []" "outputAudioSources ?s = []"
    using setupLiveChat_browser_playback [of initial_app] by (simp_all add: initial_app_def)
  let ?s1 = "fst (onmessage c 1 (pcm_chunk ?A) ?s)"
  have s1: "outputAudioContext ?s1 = Some (new_context browser 24000)"
           "map stop_calls (sources ?s1) = [0]" "length (sources ?s1) = 1"
           "outputAudioSources ?s1 = [0]"
    using s by (simp_all add: onmessage_pcm_chunk [OF s(1) ctx A] set_add_def)
  let ?s2 = "fst (onmessage c 1 (pcm_chunk ?A) ?s1)"
  have s2: "outputAudioContext ?s2 = Some (new_context browser 24000)"
           "map stop_calls (sources ?s2) = [0, 0]"
           "outputAudioSources ?s2 = [0, 1]"
    using s1 by (simp_all add: onmessage_pcm_chunk [OF s1(1) ctx A] set_add_def)
  then show ?thesis by (simp add: receive_Cons receive_Nil)
qed

text \<open>
  Claim C1, as the code computes it.  The handler adds the start time and the duration
  of a buffer in doubles and keeps the rounded sum in \<^verbatim>\<open>nextStartTime\<close>; the exact sum can
  lie above it.  For a run of messages none of which carries the interruption flag, at
  clock readings that are doubles, from a state whose \<^verbatim>\<open>nextStartTime\<close> is a double: each
  message either creates no source node and does not move \<^verbatim>\<open>nextStartTime\<close> back, or
  creates one node whose start time is the maximum of \<^verbatim>\<open>nextStartTime\<close> and the clock
  reading, and leaves \<^verbatim>\<open>nextStartTime\<close> at the double sum of that start time and the
  duration of the buffer.  The nodes created by the run, in order, start no earlier than
  the clock reading of their handler, have a non-negative duration, and each starts no
  earlier than the double sum of the start time and the duration of the one before it;
  the start times do not decrease.  A chunk whose decoding raises creates no node and
  ends its handler only.  A non-empty chunk of 16-bit samples, received with an output
  context that supports one channel at 24000 Hz, always creates its node.
\<close>

theorem playback_schedule_in_doubles:
  assumes "\<forall>e\<in>set events. \<not> interrupted (snd e)"
    and "\<forall>e\<in>set events. is_double (fst e)"
    and "is_double (nextStartTime s)"
  shows "(\<forall>e\<in>set events. \<forall>t.
            (sources (fst (onmessage c (fst e) (snd e) t)) = sources t
             \<and> nextStartTime t \<le> nextStartTime (fst (onmessage c (fst e) (snd e) t)))
          \<or> (\<exists>node. sources (fst (onmessage c (fst e) (snd e) t)) = sources t @ [node]
                 \<and> start_when node = max (nextStartTime t) (fst e)
                 \<and> nextStartTime (fst (onmessage c (fst e) (snd e) t))
                     = double_of (start_when node + duration (buffer node))))
       \<and> (\<exists>new. sources (receive c events s) = sources s @ new
            \<and> (\<forall>n\<in>set new. requested_at n \<le> start_when n \<and> nextStartTime s \<le> start_when n
                  \<and> 0 \<le> duration (buffer n))
            \<and> (\<forall>i. Suc i < length new \<longrightarrow>
                  double_of (start_when (new ! i) + duration (buffer (new ! i)))
                    \<le> start_when (new ! Suc i)
                \<and> start_when (new ! i) \<le> start_when (new ! Suc i)))
       \<and> (\<forall>t ctx now samples.
             outputAudioContext t = Some ctx \<and> rate_supported ctx 24000 \<and> 1 \<le> max_channels ctx
             \<and> samples \<noteq> [] \<longrightarrow>
             sources (fst (onmessage c now (pcm_chunk samples) t)) =
               sources t @ [\<lparr> buffer = pcm_buffer samples,
                               start_when = max (nextStartTime t) now,
                               requested_at = now, stop_calls = 0 \<rparr>]
             \<and> nextStartTime (fst (onmessage c now (pcm_chunk samples) t)) =
                 double_of (max (nextStartTime t) now + duration (pcm_buffer samples))
             \<and> snd (onmessage c now (pcm_chunk samples) t) = None)"
proof -
  have chunk: "sources (fst (onmessage c now (pcm_chunk samples) t)) =
               sources t @ [\<lparr> buffer = pcm_buffer samples,
                               start_when = max (nextStartTime t) now,
                               requested_at = now, stop_calls = 0 \<rparr>]
             \<and> nextStartTime (fst (onmessage c now (pcm_chunk samples) t)) =
                 double_of (max (nextStartTime t) now + duration (pcm_buffer samples))
             \<and> snd (onmessage c now (pcm_chunk samples) t) = None"
    if "outputAudioContext t = Some ctx" "rate_supported ctx 24000" "1 \<le> max_channels ctx"
      "samples \<noteq> []" for t ctx now samples
    by (simp add: onmessage_pcm_chunk [OF that])
  have step: "(sources (fst (onmessage c (fst e) (snd e) t)) = sources t
             \<and> nextStartTime t \<le> nextStartTime (fst (onmessage c (fst e) (snd e) t)))
          \<or> (\<exists>node. sources (fst (onmessage c (fst e) (snd e) t)) = sources t @ [node]
                 \<and> start_when node = max (nextStartTime t) (fst e)
                 \<and> nextStartTime (fst (onmessage c (fst e) (snd e) t))
                     = double_of (start_when node + duration (buffer node)))"
    if "e \<in> set events" for e t
  proof -
    have "\<not> interrupted (snd e)" using that assms(1) by blast
    from onmessage_step [OF this, of c "fst e" t] show ?thesis by auto
  qed
  from receive_chained [OF assms, of c]
  obtain new where new: "sources (receive c events s) = sources s @ new"
    and ch: "chained (nextStartTime s) new" by blast
  have req: "requested_at n \<le> start_when n \<and> nextStartTime s \<le> start_when n
             \<and> 0 \<le> duration (buffer n)" if "n \<in> set new" for n
    using chained_node [OF ch that] duration_nonneg by simp
  have gap: "double_of (start_when (new ! i) + duration (buffer (new ! i)))
               \<le> start_when (new ! Suc i)
           \<and> start_when (new ! i) \<le> start_when (new ! Suc i)" if "Suc i < length new" for i
  proof -
    have g: "double_of (start_when (new ! i) + duration (buffer (new ! i)))
               \<le> start_when (new ! Suc i)"
      using chained_nth [OF ch that] .
    have "new ! i \<in> set new" using that by simp
    then have "is_double (start_when (new ! i))" using chained_node [OF ch] by blast
    then have "start_when (new ! i)
                 \<le> double_of (start_when (new ! i) + duration (buffer (new ! i)))"
      using duration_nonneg by (rule double_of_sum_ge)
    with g show ?thesis by simp
  qed
  have run: "\<exists>new. sources (receive c events s) = sources s @ new
            \<and> (\<forall>n\<in>set new. requested_at n \<le> start_when n \<and> nextStartTime s \<le> start_when n
                  \<and> 0 \<le> duration (buffer n))
            \<and> (\<forall>i. Suc i < length new \<longrightarrow>
                  double_of (start_when (new ! i) + duration (buffer (new ! i)))
                    \<le> start_when (new ! Suc i)
                \<and> start_when (new ! i) \<le> start_when (new ! Suc i))"
    using new req gap by blast
  show ?thesis
  proof (intro conjI)
    show "\<forall>e\<in>set events. \<forall>t.
            (sources (fst (onmessage c (fst e) (snd e) t)) = sources t
             \<and> nextStartTime t \<le> nextStartTime (fst (onmessage c (fst e) (snd e) t)))
          \<or> (\<exists>node. sources (fst (onmessage c (fst e) (snd e) t)) = sources t @ [node]
                 \<and> start_when node = max (nextStartTime t) (fst e)
                 \<and> nextStartTime (fst (onmessage c (fst e) (snd e) t))
                     = double_of (start_when node + duration (buffer node)))"
      using step by blast
    show "\<exists>new. sources (receive c events s) = sources s @ new
            \<and> (\<forall>n\<in>set new. requested_at n \<le> start_when n \<and> nextStartTime s \<le> start_when n
                  \<and> 0 \<le> duration (buffer n))
            \<and> (\<forall>i. Suc i < length new \<longrightarrow>
                  double_of (start_when (new ! i) + duration (buffer (new ! i)))
                    \<le> start_when (new ! Suc i)
                \<and> start_when (new ! i) \<le> start_when (new ! Suc i))"
      by (rule run)
    show "\<forall>t ctx now samples.
             outputAudioContext t = Some ctx \<and> rate_supported ctx 24000 \<and> 1 \<le> max_channels ctx
             \<and> samples \<noteq> [] \<longrightarrow>
             sources (fst (onmessage c now (pcm_chunk samples) t)) =
               sources t @ [\<lparr> buffer = pcm_buffer samples,
                               start_when = max (nextStartTime t) now,
                               requested_at = now, stop_calls = 0 \<rparr>]
             \<and> nextStartTime (fst (onmessage c now (pcm_chunk samples) t)) =
                 double_of (max (nextStartTime t) now + duration (pcm_buffer samples))
             \<and> snd (onmessage c now (pcm_chunk samples) t) = None"
      using chunk by blast
  qed
qed

text \<open>
  Three well-formed chunks of 375, 750 and 375 frames, the first two arriving together
  at time 1 and the third late at time 5: the second is queued behind the first, the
  third starts at once.
\<close>

theorem playback_schedule_witness:
  "\<exists>n0 n1 n2.
     sources (receive (callbacks (sessions (setupLiveChat browser initial_app) 0))
        [(1, pcm_chunk (replicate 375 (Finite 0))),
         (1, pcm_chunk (replicate 750 (Finite 0))),
         (5, pcm_chunk (replicate 375 (Finite 0)))]
        (setupLiveChat browser initial_app)) = [n0, n1, n2]
   \<and> schedule [n0, n1, n2] = [(1, 1 / 64), (65 / 64, 1 / 32), (5, 1 / 64)]
   \<and> double_of (start_when n0 + duration (buffer n0)) \<le> start_when n1
   \<and> double_of (start_when n1 + duration (buffer n1)) \<le> start_when n2"
proof -
  let ?s = "setupLiveChat browser initial_app"
  let ?c = "callbacks (sessions ?s 0)"
  let ?A = "replicate 375 (Finite 0)"
  let ?B = "replicate 750 (Finite 0)"
  let ?events = "[(1, pcm_chunk ?A), (1, pcm_chunk ?B), (5, pcm_chunk ?A)]"
  let ?n0 = "\<lparr> buffer = pcm_buffer ?A, start_when = 1, requested_at = 1, stop_calls = 0 \<rparr>"
  let ?n1 = "\<lparr> buffer = pcm_buffer ?B, start_when = 65 / 64, requested_at = 1,
               stop_calls = 0 \<rparr>"
  let ?n2 = "\<lparr> buffer = pcm_buffer ?A, start_when = 5, requested_at = 5, stop_calls = 0 \<rparr>"
  note ctx = browser_context [of 24000, THEN conjunct1] browser_context [of 24000, THEN conjunct2]
  have A: "?A \<noteq> []" and B: "?B \<noteq> []" by simp_all
  have r1: "double_of (65 / 64) = 65 / 64" by code_simp
  have r2: "double_of (67 / 64) = 67 / 64" by code_simp
  have s: "outputAudioContext ?s = Some (new_context browser 24000)" "nextStartTime ?s = 0"
          "sources ?s = []"
    using setupLiveChat_browser_playback [of initial_app] by (simp_all add: initial_app_def)
  let ?s1 = "fst (onmessage ?c 1 (pcm_chunk ?A) ?s)"
  have "nextStartTime ?s1 = double_of (max (nextStartTime ?s) 1 + duration (pcm_buffer ?A))"
    by (simp add: onmessage_pcm_chunk [OF s(1) ctx A])
  also have "\<dots> = double_of (65 / 64)" unfolding s(2) duration_375 by simp
  also have "\<dots> = 65 / 64" by (rule r1)
  finally have next1: "nextStartTime ?s1 = 65 / 64" .
  have s1: "outputAudioContext ?s1 = Some (new_context browser 24000)" "sources ?s1 = [?n0]"
    using s by (simp_all add: onmessage_pcm_chunk [OF s(1) ctx A])
  let ?s2 = "fst (onmessage ?c 1 (pcm_chunk ?B) ?s1)"
  have "nextStartTime ?s2 = double_of (max (nextStartTime ?s1) 1 + duration (pcm_buffer ?B))"
    by (simp add: onmessage_pcm_chunk [OF s1(1) ctx B])
  also have "\<dots> = double_of (67 / 64)" unfolding next1 duration_750 by simp
  also have "\<dots> = 67 / 64" by (rule r2)
  finally have next2: "nextStartTime ?s2 = 67 / 64" .
  have "sources ?s2 = sources ?s1 @
          [\<lparr> buffer = pcm_buffer ?B, start_when = max (nextStartTime ?s1) 1, requested_at = 1,
             stop_calls = 0 \<rparr>]"
    by (simp add: onmessage_pcm_chunk [OF s1(1) ctx B])
  also have "max (nextStartTime ?s1) 1 = 65 / 64" unfolding next1 by simp
  finally have s2: "sources ?s2 = [?n0, ?n1]" unfolding s1(2) by simp
  have c2: "outputAudioContext ?s2 = Some (new_context browser 24000)"
    using s1(1) by (simp add: onmessage_pcm_chunk [OF s1(1) ctx B])
  let ?s3 = "fst (onmessage ?c 5 (pcm_chunk ?A) ?s2)"
  have "sources ?s3 = sources ?s2 @
          [\<lparr> buffer = pcm_buffer ?A, start_when = max (nextStartTime ?s2) 5, requested_at = 5,
             stop_calls = 0 \<rparr>]"
    by (simp add: onmessage_pcm_chunk [OF c2 ctx A])
  also have "max (nextStartTime ?s2) 5 = 5" unfolding next2 by simp
  finally have s3: "sources ?s3 = [?n0, ?n1, ?n2]" unfolding s2 by simp
  have run: "sources (receive ?c ?events ?s) = [?n0, ?n1, ?n2]"
    using s3 by (simp add: receive_Cons receive_Nil)
  have sched: "schedule [?n0, ?n1, ?n2] = [(1, 1 / 64), (65 / 64, 1 / 32), (5, 1 / 64)]"
    by (simp add: schedule_def duration_375 duration_750)
  have h1: "\<forall>e\<in>set ?events. \<not> interrupted (snd e)" by (simp add: pcm_chunk_fields)
  have h2: "\<forall>e\<in>set ?events. is_double (fst e)" by (simp add: is_double_1 is_double_5)
  have h3: "is_double (nextStartTime ?s)" by (simp add: s is_double_0)
  from playback_schedule_in_doubles [OF h1 h2 h3, of ?c]
  obtain new where new: "sources (receive ?c ?events ?s) = sources ?s @ new"
    and gap: "\<And>i. Suc i < length new \<Longrightarrow>
                double_of (start_when (new ! i) + duration (buffer (new ! i)))
                  \<le> start_when (new ! Suc i)"
    by blast
  from new run s(3) have eq: "new = [?n0, ?n1, ?n2]" by simp
  have g0: "double_of (start_when ?n0 + duration (buffer ?n0)) \<le> start_when ?n1"
    using gap [of 0] unfolding eq by simp
  have g1: "double_of (start_when ?n1 + duration (buffer ?n1)) \<le> start_when ?n2"
    using gap [of 1] unfolding eq by simp
  from run sched g0 g1 show ?thesis by blast
qed

text \<open>
  The start of a buffer can precede the exact end of the buffer before it.  A chunk of
  three frames and then one of two frames, both handled at clock reading 1: the first
  buffer lasts the double nearest to \<open>3 / 24000\<close>, the second starts at the double nearest
  to 1 plus that duration, which is below the exact sum.
\<close>

theorem playback_schedule_counterexample:
  "\<exists>n0 n1.
     sources (receive (callbacks (sessions (setupLiveChat browser initial_app) 0))
        [(1, pcm_chunk [Finite 0, Finite 0, Finite 0]),
         (1, pcm_chunk [Finite 0, Finite 0])]
        (setupLiveChat browser initial_app)) = [n0, n1]
   \<and> start_when n0 = 1
   \<and> duration (buffer n0) = 1152921504606847 / 9223372036854775808
   \<and> start_when n1 = 4504162577323917 / 4503599627370496
   \<and> \<not> start_when n0 + duration (buffer n0) \<le> start_when n1"
proof -
  let ?s = "setupLiveChat browser initial_app"
  let ?c = "callbacks (sessions ?s 0)"
  let ?A = "[Finite 0, Finite 0, Finite 0]"
  let ?B = "[Finite 0, Finite 0]"
  let ?d = "1152921504606847 / 9223372036854775808 :: rat"
  let ?t = "4504162577323917 / 4503599627370496 :: rat"
  let ?n0 = "\<lparr> buffer = pcm_buffer ?A, start_when = 1, requested_at = 1, stop_calls = 0 \<rparr>"
  let ?n1 = "\<lparr> buffer = pcm_buffer ?B, start_when = ?t, requested_at = 1, stop_calls = 0 \<rparr>"
  note ctx = browser_context [of 24000, THEN conjunct1] browser_context [of 24000, THEN conjunct2]
  have A: "?A \<noteq> []" and B: "?B \<noteq> []" by simp_all
  have q: "double_of (1 / 8000) = ?d" by code_simp
  have dA: "duration (pcm_buffer ?A) = ?d"
    using q by (simp add: duration_pcm_buffer)
  have sum: "double_of (1 + ?d) = ?t" by code_simp
  have s: "outputAudioContext ?s = Some (new_context browser 24000)" "nextStartTime ?s = 0"
          "sources ?s = []"
    using setupLiveChat_browser_playback [of initial_app] by (simp_all add: initial_app_def)
  let ?s1 = "fst (onmessage ?c 1 (pcm_chunk ?A) ?s)"
  have "nextStartTime ?s1 = double_of (max (nextStartTime ?s) 1 + duration (pcm_buffer ?A))"
    by (simp add: onmessage_pcm_chunk [OF s(1) ctx A])
  also have "\<dots> = double_of (1 + ?d)" unfolding s(2) dA by simp
  also have "\<dots> = ?t" by (rule sum)
  finally have next1: "nextStartTime ?s1 = ?t" .
  have s1: "outputAudioContext ?s1 = Some (new_context browser 24000)" "sources ?s1 = [?n0]"
    using s by (simp_all add: onmessage_pcm_chunk [OF s(1) ctx A])
  let ?s2 = "fst (onmessage ?c 1 (pcm_chunk ?B) ?s1)"
  have "sources ?s2 = sources ?s1 @
          [\<lparr> buffer = pcm_buffer ?B, start_when = max (nextStartTime ?s1) 1, requested_at = 1,
             stop_calls = 0 \<rparr>]"
    by (simp add: onmessage_pcm_chunk [OF s1(1) ctx B])
  also have "max (nextStartTime ?s1) 1 = ?t" unfolding next1 by simp
  finally have s2: "sources ?s2 = [?n0, ?n1]" unfolding s1(2) by simp
  have run: "sources (receive ?c [(1, pcm_chunk ?A), (1, pcm_chunk ?B)] ?s) = [?n0, ?n1]"
    using s2 by (simp add: receive_Cons receive_Nil)
  have "\<not> start_when ?n0 + duration (buffer ?n0) \<le> start_when ?n1"
    by (simp add: dA)
  with run dA show ?thesis by auto
qed

text \<open>
  The active set holds distinct names of existing nodes: in the initial state, after
  every message and after every \<^verbatim>\<open>ended\<close> event.
\<close>

lemma active_set_initial:
  "distinct (outputAudioSources initial_app)
   \<and> (\<forall>x\<in>set (outputAudioSources initial_app). x < length (sources initial_app))"
  by (simp add: initial_app_def)

lemma active_set_onmessage:
  assumes "distinct (outputAudioSources s)"
    and "\<forall>x\<in>set (outputAudioSources s). x < length (sources s)"
  shows "distinct (outputAudioSources (fst (onmessage c now m s)))
       \<and> (\<forall>x\<in>set (outputAudioSources (fst (onmessage c now m s))).
             x < length (sources (fst (onmessage c now m s))))"
proof -
  let ?t = "transcription_handling c m s"
  have t: "sources ?t = sources s" "outputAudioSources ?t = outputAudioSources s"
    using transcription_handling_playback [of c m s] by simp_all
  have fresh: "length (sources s) \<notin> set (outputAudioSources s)" using assms(2) by auto
  have int: "distinct (outputAudioSources (interruption_handling m u))
       \<and> (\<forall>x\<in>set (outputAudioSources (interruption_handling m u)).
             x < length (sources (interruption_handling m u)))"
    if "distinct (outputAudioSources u)"
      and "\<forall>x\<in>set (outputAudioSources u). x < length (sources u)" for u
    using that
    by (cases "interrupted m")
      (simp_all add: interruption_handling_eq, simp add: interruption_handling_def)
  show ?thesis
  proof (cases now m ?t rule: audio_output_handling_cases)
    case skip
    then have "fst (onmessage c now m s) = interruption_handling m ?t"
      by (simp add: onmessage_def)
    then show ?thesis using int [of ?t] assms by (simp add: t)
  next
    case (raise e)
    then show ?thesis using assms by (simp add: onmessage_def t)
  next
    case (play audioBuffer)
    let ?u = "?t \<lparr> nextStartTime := double_of (max (nextStartTime ?t) now + duration audioBuffer),
              outputAudioSources := set_add (length (sources ?t)) (outputAudioSources ?t),
              sources := sources ?t @
                [\<lparr> buffer = audioBuffer, start_when = max (nextStartTime ?t) now,
                   requested_at = now, stop_calls = 0 \<rparr>] \<rparr>"
    have om: "fst (onmessage c now m s) = interruption_handling m ?u"
      using play by (simp add: onmessage_def)
    have "distinct (outputAudioSources ?u)"
      using assms(1) fresh by (simp add: t set_add_fresh)
    moreover have "\<forall>x\<in>set (outputAudioSources ?u). x < length (sources ?u)"
      using assms(2) fresh by (auto simp: t set_add_fresh)
    ultimately show ?thesis unfolding om by (rule int)
  qed
qed

lemma active_set_onended:
  assumes "distinct (outputAudioSources s)"
    and "\<forall>x\<in>set (outputAudioSources s). x < length (sources s)"
  shows "distinct (outputAudioSources (onended source s))
       \<and> (\<forall>x\<in>set (outputAudioSources (onended source s)). x < length (sources (onended source s)))"
  using assms by (simp add: onended_def distinct_removeAll)

text \<open>
  Claim C2, as the code behaves.  The handler reaches the interruption block only when
  the audio block before it has not raised.  In a state whose active set holds \<open>k\<close>
  distinct source nodes, a message with the interruption flag whose handler does not
  raise leaves the active set empty and \<^verbatim>\<open>nextStartTime\<close> at zero, and every one of the
  \<open>k\<close> nodes has received one more \<^verbatim>\<open>stop\<close> call.  The handler does not raise when the
  message carries no audio chunk or an empty one, or when there is no output context.
  When it raises, no node is stopped, the active set is unchanged, and \<^verbatim>\<open>nextStartTime\<close>
  is left at the maximum of its old value and the clock reading.
\<close>

theorem interruption_unless_decoding_raises:
  assumes int: "interrupted m"
    and dist: "distinct (outputAudioSources s)"
    and valid: "\<forall>x\<in>set (outputAudioSources s). x < length (sources s)"
  shows "(snd (onmessage c now m s) = None \<longrightarrow>
            outputAudioSources (fst (onmessage c now m s)) = []
          \<and> nextStartTime (fst (onmessage c now m s)) = 0
          \<and> (\<forall>x\<in>set (outputAudioSources s).
                stop_calls (sources (fst (onmessage c now m s)) ! x)
                  = stop_calls (sources s ! x) + 1))
       \<and> (inlineData m = None \<or> inlineData m = Some [] \<or> outputAudioContext s = None \<longrightarrow>
            snd (onmessage c now m s) = None)
       \<and> (snd (onmessage c now m s) \<noteq> None \<longrightarrow>
            outputAudioSources (fst (onmessage c now m s)) = outputAudioSources s
          \<and> sources (fst (onmessage c now m s)) = sources s
          \<and> nextStartTime (fst (onmessage c now m s)) = max (nextStartTime s) now)"
proof -
  let ?t = "transcription_handling c m s"
  have t: "sources ?t = sources s" "outputAudioSources ?t = outputAudioSources s"
    "nextStartTime ?t = nextStartTime s" "outputAudioContext ?t = outputAudioContext s"
    using transcription_handling_playback [of c m s] by simp_all
  have total: "snd (onmessage c now m s) = None"
    if "inlineData m = None \<or> inlineData m = Some [] \<or> outputAudioContext s = None"
    using that by (auto simp: onmessage_def audio_output_handling_def t split: option.split)
  have failed: "outputAudioSources (fst (onmessage c now m s)) = outputAudioSources s
          \<and> sources (fst (onmessage c now m s)) = sources s
          \<and> nextStartTime (fst (onmessage c now m s)) = max (nextStartTime s) now"
    if bad: "snd (onmessage c now m s) \<noteq> None"
  proof (cases now m ?t rule: audio_output_handling_cases)
    case skip
    then have "snd (onmessage c now m s) = None" by (simp add: onmessage_def)
    with bad show ?thesis by simp
  next
    case (raise e)
    then show ?thesis by (simp add: onmessage_def t)
  next
    case (play audioBuffer)
    then have "snd (onmessage c now m s) = None" by (simp add: onmessage_def)
    with bad show ?thesis by simp
  qed
  have main: "outputAudioSources (fst (onmessage c now m s)) = []
          \<and> nextStartTime (fst (onmessage c now m s)) = 0
          \<and> (\<forall>x\<in>set (outputAudioSources s).
                stop_calls (sources (fst (onmessage c now m s)) ! x)
                  = stop_calls (sources s ! x) + 1)"
    if ok: "snd (onmessage c now m s) = None"
  proof (cases now m ?t rule: audio_output_handling_cases)
    case skip
    then have om: "fst (onmessage c now m s) = interruption_handling m ?t"
      by (simp add: onmessage_def)
    show ?thesis
      unfolding om interruption_handling_eq [OF int]
      using dist valid by (simp add: t stop_calls_fold_stop_source count_list_distinct)
  next
    case (raise e)
    then have "snd (onmessage c now m s) = Some e" by (simp add: onmessage_def)
    with ok show ?thesis by simp
  next
    case (play audioBuffer)
    let ?n = "length (sources s)"
    let ?node = "\<lparr> buffer = audioBuffer, start_when = max (nextStartTime ?t) now,
                   requested_at = now, stop_calls = 0 \<rparr>"
    have fresh: "?n \<notin> set (outputAudioSources s)" using valid by auto
    have om: "fst (onmessage c now m s) = interruption_handling m
        (?t \<lparr> nextStartTime := double_of (max (nextStartTime ?t) now + duration audioBuffer),
              outputAudioSources := outputAudioSources s @ [?n],
              sources := sources s @ [?node] \<rparr>)"
      using play by (simp add: onmessage_def t set_add_fresh [OF fresh])
    have d: "distinct (outputAudioSources s @ [?n])" using dist fresh by simp
    have "stop_calls (fold stop_source (outputAudioSources s @ [?n]) (sources s @ [?node]) ! x)
            = stop_calls (sources s ! x) + 1"
      if x: "x \<in> set (outputAudioSources s)" for x
    proof -
      have lt: "x < ?n" using valid x by simp
      then have "x < length (sources s @ [?node])" by simp
      then have "stop_calls (fold stop_source (outputAudioSources s @ [?n]) (sources s @ [?node]) ! x)
          = stop_calls ((sources s @ [?node]) ! x) + count_list (outputAudioSources s @ [?n]) x"
        by (rule stop_calls_fold_stop_source)
      moreover have "count_list (outputAudioSources s @ [?n]) x = 1"
        using d x by (intro count_list_distinct) simp_all
      moreover have "(sources s @ [?node]) ! x = sources s ! x" using lt by (simp add: nth_append)
      ultimately show ?thesis by simp
    qed
    then show ?thesis
      unfolding om interruption_handling_eq [OF int] by simp
  qed
  show ?thesis using main total failed by blast
qed

text \<open>
  Two chunks are playing when a message with the interruption flag and no audio
  arrives: both nodes are stopped once and the schedule is reset.
\<close>

theorem interruption_witness:
  "outputAudioSources
     (receive (callbacks (sessions (setupLiveChat browser initial_app) 0))
        [(1, pcm_chunk (replicate 375 (Finite 0))),
         (1, pcm_chunk (replicate 375 (Finite 0)))]
        (setupLiveChat browser initial_app)) = [0, 1]
   \<and> outputAudioSources
     (receive (callbacks (sessions (setupLiveChat browser initial_app) 0))
        [(1, pcm_chunk (replicate 375 (Finite 0))),
         (1, pcm_chunk (replicate 375 (Finite 0))),
         (3, interruption)]
        (setupLiveChat browser initial_app)) = []
   \<and> nextStartTime
     (receive (callbacks (sessions (setupLiveChat browser initial_app) 0))
        [(1, pcm_chunk (replicate 375 (Finite 0))),
         (1, pcm_chunk (replicate 375 (Finite 0))),
         (3, interruption)]
        (setupLiveChat browser initial_app)) = 0
   \<and> stop_calls (sources
     (receive (callbacks (sessions (setupLiveChat browser initial_app) 0))
        [(1, pcm_chunk (replicate 375 (Finite 0))),
         (1, pcm_chunk (replicate 375 (Finite 0))),
         (3, interruption)]
        (setupLiveChat browser initial_app)) ! 0) = 1
   \<and> stop_calls (sources
     (receive (callbacks (sessions (setupLiveChat browser initial_app) 0))
        [(1, pcm_chunk (replicate 375 (Finite 0))),
         (1, pcm_chunk (replicate 375 (Finite 0))),
         (3, interruption)]
        (setupLiveChat browser initial_app)) ! 1) = 1"
proof -
  let ?s = "setupLiveChat browser initial_app"
  let ?c = "callbacks (sessions ?s 0)"
  let ?A = "replicate 375 (Finite 0)"
  let ?s2 = "receive ?c [(1, pcm_chunk ?A), (1, pcm_chunk ?A)] ?s"
  let ?s3 = "fst (onmessage ?c 3 interruption ?s2)"
  note two = two_chunks_playing [of ?c]
  have set2: "outputAudioSources ?s2 = [0, 1]" using two by blast
  have calls2: "map stop_calls (sources ?s2) = [0, 0]" using two by blast
  have len2: "length (sources ?s2) = 2" using calls2 [THEN arg_cong, of length] by simp
  have c0: "stop_calls (sources ?s2 ! 0) = 0" "stop_calls (sources ?s2 ! 1) = 0"
    using calls2 [THEN arg_cong, of "\<lambda>xs. xs ! 0"] calls2 [THEN arg_cong, of "\<lambda>xs. xs ! 1"] len2
    by simp_all
  have i: "interrupted interruption" "inlineData interruption = None"
    by (simp_all add: interruption_def no_message_def)
  have d: "distinct (outputAudioSources ?s2)"
    and v: "\<forall>x\<in>set (outputAudioSources ?s2). x < length (sources ?s2)"
    unfolding set2 len2 by simp_all
  note inst = interruption_unless_decoding_raises [OF i(1) d v, of ?c 3]
  from inst i(2) have ok: "snd (onmessage ?c 3 interruption ?s2) = None" by blast
  from inst ok have e: "outputAudioSources ?s3 = []" by blast
  from inst ok have n: "nextStartTime ?s3 = 0" by blast
  from inst ok have st: "\<forall>x\<in>set (outputAudioSources ?s2).
               stop_calls (sources ?s3 ! x) = stop_calls (sources ?s2 ! x) + 1"
    by blast
  have "stop_calls (sources ?s3 ! 0) = 1" "stop_calls (sources ?s3 ! 1) = 1"
    using st c0 unfolding set2 by simp_all
  moreover have run: "receive ?c [(1, pcm_chunk ?A), (1, pcm_chunk ?A), (3, interruption)] ?s = ?s3"
    by (simp add: receive_def)
  ultimately show ?thesis using set2 e n by (simp only: run)
qed

text \<open>
  Two chunks are playing when a message arrives that carries the interruption flag
  together with the chunk \<^verbatim>\<open>A\<close>, which is not valid base64: \<^verbatim>\<open>atob\<close> raises, the handler
  ends before the interruption block, and both nodes keep playing.
\<close>

theorem interruption_counterexample:
  "interrupted (interruption \<lparr> inlineData := Some ''A'' \<rparr>)
   \<and> outputAudioSources
     (receive (callbacks (sessions (setupLiveChat browser initial_app) 0))
        [(1, pcm_chunk (replicate 375 (Finite 0))),
         (1, pcm_chunk (replicate 375 (Finite 0)))]
        (setupLiveChat browser initial_app)) = [0, 1]
   \<and> snd (onmessage (callbacks (sessions (setupLiveChat browser initial_app) 0)) 3
        (interruption \<lparr> inlineData := Some ''A'' \<rparr>)
        (receive (callbacks (sessions (setupLiveChat browser initial_app) 0))
           [(1, pcm_chunk (replicate 375 (Finite 0))),
            (1, pcm_chunk (replicate 375 (Finite 0)))]
           (setupLiveChat browser initial_app))) = Some InvalidCharacterError
   \<and> outputAudioSources (fst (onmessage (callbacks (sessions (setupLiveChat browser initial_app) 0)) 3
        (interruption \<lparr> inlineData := Some ''A'' \<rparr>)
        (receive (callbacks (sessions (setupLiveChat browser initial_app) 0))
           [(1, pcm_chunk (replicate 375 (Finite 0))),
            (1, pcm_chunk (replicate 375 (Finite 0)))]
           (setupLiveChat browser initial_app)))) = [0, 1]
   \<and> map stop_calls (sources (fst (onmessage (callbacks (sessions (setupLiveChat browser initial_app) 0)) 3
        (interruption \<lparr> inlineData := Some ''A'' \<rparr>)
        (receive (callbacks (sessions (setupLiveChat browser initial_app) 0))
           [(1, pcm_chunk (replicate 375 (Finite 0))),
            (1, pcm_chunk (replicate 375 (Finite 0)))]
           (setupLiveChat browser initial_app))))) = [0, 0]
   \<and> nextStartTime (fst (onmessage (callbacks (sessions (setupLiveChat browser initial_app) 0)) 3
        (interruption \<lparr> inlineData := Some ''A'' \<rparr>)
        (receive (callbacks (sessions (setupLiveChat browser initial_app) 0))
           [(1, pcm_chunk (replicate 375 (Finite 0))),
            (1, pcm_chunk (replicate 375 (Finite 0)))]
           (setupLiveChat browser initial_app)))) \<noteq> 0"
proof -
  let ?s = "setupLiveChat browser initial_app"
  let ?c = "callbacks (sessions ?s 0)"
  let ?A = "replicate 375 (Finite 0)"
  let ?s2 = "receive ?c [(1, pcm_chunk ?A), (1, pcm_chunk ?A)] ?s"
  let ?m = "interruption \<lparr> inlineData := Some ''A'' \<rparr>"
  note two = two_chunks_playing [of ?c]
  have ctx: "outputAudioContext ?s2 = Some (new_context browser 24000)" using two by blast
  have set2: "outputAudioSources ?s2 = [0, 1]" using two by blast
  have calls2: "map stop_calls (sources ?s2) = [0, 0]" using two by blast
  have m: "interrupted ?m" "inlineData ?m = Some ''A''" "outputTranscription ?m = None"
    "inputTranscription ?m = None" "\<not> turnComplete ?m"
    by (simp_all add: interruption_def no_message_def)
  have t: "transcription_handling ?c ?m ?s2 = ?s2"
    by (simp add: transcription_handling_def m)
  have om: "onmessage ?c 3 ?m ?s2 =
              (?s2 \<lparr> nextStartTime := max (nextStartTime ?s2) 3 \<rparr>, Some InvalidCharacterError)"
    unfolding onmessage_def t
    by (simp add: audio_output_handling_def m ctx decode_single_character)
  have "max (nextStartTime ?s2) 3 \<noteq> 0" by (simp add: max_def)
  then show ?thesis using m(1) set2 calls2 unfolding om by simp
qed

end
